theory Spec2Isabelle
  imports Main "HOL-Library.Multiset"
begin

section \<open>The parallel group builder of \<open>src/common/group_data.h\<close>\<close>

text \<open>
  \<open>ParallelGroupBuilder<ValueType, SizeType>\<close> groups (key, value) pairs into a value
  array \<open>data\<close> and an offset array \<open>ptr\<close> in four steps: \<open>InitBudget\<close>,
  \<open>AddBudget\<close>, \<open>InitStorage\<close>, \<open>Push\<close>.

  The three vectors the builder holds by reference, \<open>rptr_\<close>, \<open>data_\<close> and
  \<open>thread_rptr_\<close>, are the fields of a record (named without the trailing underscore,
  which a field name cannot carry). \<open>ValueType\<close> is a type variable; values are moved,
  never inspected. The thread id is an \<open>int\<close>, as in the source.

  The template parameter \<open>SizeType\<close> (by default \<open>bst_ulong\<close>, declared in
  \<open>xgboost/base.h\<close>) and \<open>std::size_t\<close> are unsigned integers of 64 bits: a sum is
  kept modulo \<open>2^64\<close> (\<open>wrap\<close>). Every function of the source that adds is given
  twice. The one named with the suffix \<open>64\<close> reduces each sum as the source does; its
  numbers are the natural numbers below \<open>2^64\<close>. The one that bears the name of the
  source adds in the natural numbers: it is the source for as long as no sum reaches
  \<open>2^64\<close>. The section on the two families proves that the 64-bit \<open>InitStorage\<close>
  leaves the numbers of the unbounded one modulo \<open>2^64\<close>, and that the two families
  compute the same whenever the budgets, added to the offsets of the prior \<open>rptr_\<close>,
  stay below \<open>2^64\<close>. The statements about calls whose budgets are free are made of
  the 64-bit functions. The statements about builds whose pushes match the budgets,
  where every number stored is at most the prior length of \<open>data_\<close> plus the number
  of \<open>Push\<close> calls, are made of the unbounded ones.

  The size of a vector is below \<open>2^64\<close>, so the loop counters and the
  \<open>size() + 1\<close> of the source do not wrap around; \<open>key + 1\<close> in \<open>AddBudget\<close>, where
  \<open>key\<close> is an argument, does when \<open>key\<close> is \<open>SIZE_MAX\<close>.

  An out-of-range \<open>operator[]\<close> and \<open>back()\<close> on an empty vector are undefined
  behaviour in the source; \<open>resize\<close> to a negative \<open>int\<close> converted to \<open>size_t\<close>
  throws \<open>std::length_error\<close>. Both are results of the model.
\<close>

datatype error = LengthError | UndefinedBehaviour

record 'v builder =
  rptr :: "nat list"
  data :: "'v list"
  thread_rptr :: "nat list list"

text \<open>\<open>std::vector::resize(n, x)\<close>: cut to \<open>n\<close> elements, or pad with copies of \<open>x\<close>.\<close>

definition resize :: "nat \<Rightarrow> 'a \<Rightarrow> 'a list \<Rightarrow> 'a list" where
  "resize n x xs = take n xs @ replicate (n - length xs) x"

text \<open>\<open>std::fill(begin, end, 0)\<close>.\<close>

definition fill_zero :: "nat list \<Rightarrow> nat list" where
  "fill_zero xs = map (\<lambda>_. 0) xs"

text \<open>A sum in \<open>SizeType\<close> or \<open>std::size_t\<close>: what is left of it modulo \<open>2^64\<close>.\<close>

definition wrap :: "nat \<Rightarrow> nat" where
  "wrap x = x mod 2 ^ 64"

subsection \<open>Step 1: \<open>InitBudget\<close>\<close>

definition InitBudget :: "nat \<Rightarrow> int \<Rightarrow> 'v builder \<Rightarrow> error + 'v builder" where
  "InitBudget nkeys nthread b =
     (if nthread < 0 then Inl LengthError
      else Inr (b\<lparr>thread_rptr :=
             map (\<lambda>row. fill_zero (resize nkeys 0 row))
                 (resize (nat nthread) [] (thread_rptr b))\<rparr>))"

subsection \<open>Step 2: \<open>AddBudget\<close>\<close>

text \<open>\<open>AddBudget\<close> with sums that never wrap around.\<close>

definition AddBudget :: "nat \<Rightarrow> int \<Rightarrow> nat \<Rightarrow> 'v builder \<Rightarrow> error + 'v builder" where
  "AddBudget key threadid nelem b =
     (if threadid < 0 \<or> length (thread_rptr b) \<le> nat threadid then Inl UndefinedBehaviour
      else
        let trptr = thread_rptr b ! nat threadid;
            trptr = (if length trptr < key + 1 then resize (key + 1) 0 trptr else trptr)
        in Inr (b\<lparr>thread_rptr :=
                  (thread_rptr b)[nat threadid := trptr[key := trptr ! key + nelem]]\<rparr>))"

text \<open>
  \<open>AddBudget\<close> with the sums of the source: \<open>key + 1\<close> is a sum in \<open>std::size_t\<close> and
  \<open>trptr[key] += nelem\<close> a sum in \<open>SizeType\<close>. When \<open>key + 1\<close> wraps around to 0 the
  row is not grown, and \<open>trptr[key]\<close> is then out of range.
\<close>

definition AddBudget64 :: "nat \<Rightarrow> int \<Rightarrow> nat \<Rightarrow> 'v builder \<Rightarrow> error + 'v builder" where
  "AddBudget64 key threadid nelem b =
     (if threadid < 0 \<or> length (thread_rptr b) \<le> nat threadid then Inl UndefinedBehaviour
      else
        let trptr = thread_rptr b ! nat threadid;
            trptr = (if length trptr < wrap (key + 1) then resize (wrap (key + 1)) 0 trptr else trptr)
        in if length trptr \<le> key then Inl UndefinedBehaviour
           else Inr (b\<lparr>thread_rptr :=
                  (thread_rptr b)[nat threadid := trptr[key := wrap (trptr ! key + nelem)]]\<rparr>))"

subsection \<open>Step 3: \<open>InitStorage\<close>\<close>

text \<open>The first loop: \<open>rptr_\<close> is grown until it is longer than every thread's row.\<close>

function grow_rptr :: "nat \<Rightarrow> nat \<Rightarrow> nat list list \<Rightarrow> nat list \<Rightarrow> nat list" where
  "grow_rptr tid rptr_fill_value thr ptr =
     (if tid < length thr then
        grow_rptr (tid + 1) rptr_fill_value thr
          (if length ptr \<le> length (thr ! tid)
           then resize (length (thr ! tid) + 1) rptr_fill_value ptr else ptr)
      else ptr)"
  by pat_completeness auto
termination
  by (relation "measure (\<lambda>(tid, f, thr, ptr). length thr - tid)") auto

text \<open>
  The inner loop of the second nest, for one key \<open>i\<close>: each thread that has a cell for
  \<open>i\<close> gets \<open>count + rptr_.back()\<close> in place of its budget, and \<open>count\<close> (here \<open>cnt\<close>)
  advances by the budget. It returns the rows and the count.
\<close>

function assign_threads ::
  "nat \<Rightarrow> nat \<Rightarrow> nat list \<Rightarrow> nat \<Rightarrow> nat list list \<Rightarrow> nat list list \<times> nat" where
  "assign_threads tid i ptr cnt thr =
     (if tid < length thr then
        let trptr = thr ! tid in
        if i < length trptr then
          let thread_count = trptr ! i
          in assign_threads (tid + 1) i ptr (cnt + thread_count)
               (thr[tid := trptr[i := cnt + last ptr]])
        else assign_threads (tid + 1) i ptr cnt thr
      else (thr, cnt))"
  by pat_completeness auto
termination
  by (relation "measure (\<lambda>(tid, i, ptr, cnt, thr). length thr - tid)") auto

text \<open>The outer loop over the keys \<open>i\<close> with \<open>i + 1 < rptr_.size()\<close>.\<close>

function assign_keys ::
  "nat \<Rightarrow> nat \<Rightarrow> nat list \<Rightarrow> nat list list \<Rightarrow> nat list \<times> nat list list" where
  "assign_keys i cnt ptr thr =
     (if i + 1 < length ptr then
        case assign_threads 0 i ptr cnt thr of
          (thr', cnt') \<Rightarrow>
            assign_keys (i + 1) cnt' (ptr[i + 1 := ptr ! (i + 1) + cnt']) thr'
      else (ptr, thr))"
  by pat_completeness auto
termination
  by (relation "measure (\<lambda>(i, cnt, ptr, thr). length ptr - i)") auto

text \<open>
  \<open>dv\<close> is \<open>ValueType()\<close>, the value \<open>data_.resize\<close> gives to new cells.
  With no thread and an empty \<open>rptr_\<close>, the final \<open>rptr_.back()\<close> reads an empty vector.
\<close>

definition InitStorage :: "'v \<Rightarrow> 'v builder \<Rightarrow> error + 'v builder" where
  "InitStorage dv b =
     (let rptr_fill_value = (if rptr b = [] then 0 else last (rptr b));
          ptr = grow_rptr 0 rptr_fill_value (thread_rptr b) (rptr b)
      in case assign_keys 0 0 ptr (thread_rptr b) of
           (ptr', thr') \<Rightarrow>
             if ptr' = [] then Inl UndefinedBehaviour
             else Inr \<lparr>rptr = ptr', data = resize (last ptr') dv (data b),
                       thread_rptr = thr'\<rparr>)"

text \<open>
  The second loop nest and \<open>InitStorage\<close> with the sums of the source:
  \<open>count + rptr_.back()\<close> and \<open>count += thread_count\<close> are sums in \<open>std::size_t\<close>,
  \<open>rptr_[i + 1] += count\<close> is a sum in \<open>SizeType\<close>. The first loop adds nothing but 1
  to the size of a vector: it is \<open>grow_rptr\<close> as it stands.
\<close>

function assign_threads64 ::
  "nat \<Rightarrow> nat \<Rightarrow> nat list \<Rightarrow> nat \<Rightarrow> nat list list \<Rightarrow> nat list list \<times> nat" where
  "assign_threads64 tid i ptr cnt thr =
     (if tid < length thr then
        let trptr = thr ! tid in
        if i < length trptr then
          let thread_count = trptr ! i
          in assign_threads64 (tid + 1) i ptr (wrap (cnt + thread_count))
               (thr[tid := trptr[i := wrap (cnt + last ptr)]])
        else assign_threads64 (tid + 1) i ptr cnt thr
      else (thr, cnt))"
  by pat_completeness auto
termination
  by (relation "measure (\<lambda>(tid, i, ptr, cnt, thr). length thr - tid)") auto

function assign_keys64 ::
  "nat \<Rightarrow> nat \<Rightarrow> nat list \<Rightarrow> nat list list \<Rightarrow> nat list \<times> nat list list" where
  "assign_keys64 i cnt ptr thr =
     (if i + 1 < length ptr then
        case assign_threads64 0 i ptr cnt thr of
          (thr', cnt') \<Rightarrow>
            assign_keys64 (i + 1) cnt' (ptr[i + 1 := wrap (ptr ! (i + 1) + cnt')]) thr'
      else (ptr, thr))"
  by pat_completeness auto
termination
  by (relation "measure (\<lambda>(i, cnt, ptr, thr). length ptr - i)") auto

definition InitStorage64 :: "'v \<Rightarrow> 'v builder \<Rightarrow> error + 'v builder" where
  "InitStorage64 dv b =
     (let rptr_fill_value = (if rptr b = [] then 0 else last (rptr b));
          ptr = grow_rptr 0 rptr_fill_value (thread_rptr b) (rptr b)
      in case assign_keys64 0 0 ptr (thread_rptr b) of
           (ptr', thr') \<Rightarrow>
             if ptr' = [] then Inl UndefinedBehaviour
             else Inr \<lparr>rptr = ptr', data = resize (last ptr') dv (data b),
                       thread_rptr = thr'\<rparr>)"

subsection \<open>Step 4: \<open>Push\<close>\<close>

definition Push :: "nat \<Rightarrow> 'v \<Rightarrow> int \<Rightarrow> 'v builder \<Rightarrow> error + 'v builder" where
  "Push key val threadid b =
     (if threadid < 0 \<or> length (thread_rptr b) \<le> nat threadid then Inl UndefinedBehaviour
      else
        let trptr = thread_rptr b ! nat threadid in
        if length trptr \<le> key then Inl UndefinedBehaviour
        else
          let rp = trptr ! key in
          if length (data b) \<le> rp then Inl UndefinedBehaviour
          else Inr (b\<lparr>data := (data b)[rp := val],
                      thread_rptr := (thread_rptr b)[nat threadid := trptr[key := rp + 1]]\<rparr>))"

text \<open>\<open>Push\<close> with the sum of the source: \<open>rp++\<close> is a sum in \<open>SizeType\<close>.\<close>

definition Push64 :: "nat \<Rightarrow> 'v \<Rightarrow> int \<Rightarrow> 'v builder \<Rightarrow> error + 'v builder" where
  "Push64 key val threadid b =
     (if threadid < 0 \<or> length (thread_rptr b) \<le> nat threadid then Inl UndefinedBehaviour
      else
        let trptr = thread_rptr b ! nat threadid in
        if length trptr \<le> key then Inl UndefinedBehaviour
        else
          let rp = trptr ! key in
          if length (data b) \<le> rp then Inl UndefinedBehaviour
          else Inr (b\<lparr>data := (data b)[rp := val],
                      thread_rptr := (thread_rptr b)[nat threadid := trptr[key := wrap (rp + 1)]]\<rparr>))"

subsection \<open>The calls of a build\<close>

text \<open>
  The caller owns the phases. A phase of \<open>AddBudget\<close> calls is the list of
  (key, threadid, nelem) triples in the order the calls take effect, a phase of \<open>Push\<close>
  calls the list of (key, value, threadid) triples: any interleaving of the threads is
  such a list, and a statement for every list is a statement for every schedule. A
  call reads and writes only the row of its own thread and, for \<open>Push\<close>, one cell of
  \<open>data_\<close>; these cells are shown to differ from call to call. A run stops at the
  first call that fails.
\<close>

fun AddBudgets :: "(nat \<times> int \<times> nat) list \<Rightarrow> 'v builder \<Rightarrow> error + 'v builder" where
  "AddBudgets [] b = Inr b"
| "AddBudgets ((key, threadid, nelem) # cs) b =
     (case AddBudget key threadid nelem b of
        Inl e \<Rightarrow> Inl e
      | Inr b' \<Rightarrow> AddBudgets cs b')"

fun AddBudgets64 :: "(nat \<times> int \<times> nat) list \<Rightarrow> 'v builder \<Rightarrow> error + 'v builder" where
  "AddBudgets64 [] b = Inr b"
| "AddBudgets64 ((key, threadid, nelem) # cs) b =
     (case AddBudget64 key threadid nelem b of
        Inl e \<Rightarrow> Inl e
      | Inr b' \<Rightarrow> AddBudgets64 cs b')"

text \<open>
  The run of the \<open>Push\<close> calls also records, for each call, the index \<open>rp\<close> of the cell
  of \<open>data\<close> it writes.
\<close>

definition Push_index :: "nat \<Rightarrow> int \<Rightarrow> 'v builder \<Rightarrow> nat" where
  "Push_index key threadid b = thread_rptr b ! nat threadid ! key"

fun Pushes :: "(nat \<times> 'v \<times> int) list \<Rightarrow> 'v builder \<Rightarrow> error + ('v builder \<times> nat list)" where
  "Pushes [] b = Inr (b, [])"
| "Pushes ((key, val, threadid) # ps) b =
     (case Push key val threadid b of
        Inl e \<Rightarrow> Inl e
      | Inr b' \<Rightarrow>
          (case Pushes ps b' of
             Inl e \<Rightarrow> Inl e
           | Inr (b'', tr) \<Rightarrow> Inr (b'', Push_index key threadid b # tr)))"

fun Pushes64 :: "(nat \<times> 'v \<times> int) list \<Rightarrow> 'v builder \<Rightarrow> error + ('v builder \<times> nat list)" where
  "Pushes64 [] b = Inr (b, [])"
| "Pushes64 ((key, val, threadid) # ps) b =
     (case Push64 key val threadid b of
        Inl e \<Rightarrow> Inl e
      | Inr b' \<Rightarrow>
          (case Pushes64 ps b' of
             Inl e \<Rightarrow> Inl e
           | Inr (b'', tr) \<Rightarrow> Inr (b'', Push_index key threadid b # tr)))"

text \<open>The four phases in order, on the arrays \<open>b\<close> of the caller.\<close>

definition build ::
  "nat \<Rightarrow> int \<Rightarrow> (nat \<times> int \<times> nat) list \<Rightarrow> 'v \<Rightarrow> (nat \<times> 'v \<times> int) list \<Rightarrow> 'v builder
     \<Rightarrow> error + ('v builder \<times> nat list)" where
  "build nkeys nthread cs dv ps b =
     (case InitBudget nkeys nthread b of
        Inl e \<Rightarrow> Inl e
      | Inr b1 \<Rightarrow>
          (case AddBudgets cs b1 of
             Inl e \<Rightarrow> Inl e
           | Inr b2 \<Rightarrow>
               (case InitStorage dv b2 of
                  Inl e \<Rightarrow> Inl e
                | Inr b3 \<Rightarrow> Pushes ps b3)))"

definition build64 ::
  "nat \<Rightarrow> int \<Rightarrow> (nat \<times> int \<times> nat) list \<Rightarrow> 'v \<Rightarrow> (nat \<times> 'v \<times> int) list \<Rightarrow> 'v builder
     \<Rightarrow> error + ('v builder \<times> nat list)" where
  "build64 nkeys nthread cs dv ps b =
     (case InitBudget nkeys nthread b of
        Inl e \<Rightarrow> Inl e
      | Inr b1 \<Rightarrow>
          (case AddBudgets64 cs b1 of
             Inl e \<Rightarrow> Inl e
           | Inr b2 \<Rightarrow>
               (case InitStorage64 dv b2 of
                  Inl e \<Rightarrow> Inl e
                | Inr b3 \<Rightarrow> Pushes64 ps b3)))"

section \<open>Vocabulary of the statements\<close>

text \<open>
  The counter of a row for key \<open>k\<close>; a row too short to have the cell counts 0, as the
  test \<open>i < trptr.size()\<close> of \<open>InitStorage\<close> treats it.
\<close>

definition cell :: "nat list \<Rightarrow> nat \<Rightarrow> nat" where
  "cell row k = (if k < length row then row ! k else 0)"

text \<open>The budget of key \<open>k\<close> summed over the threads, and the budgets of all keys below \<open>k\<close>.\<close>

definition key_total :: "nat list list \<Rightarrow> nat \<Rightarrow> nat" where
  "key_total thr k = sum_list (map (\<lambda>row. cell row k) thr)"

definition keys_before :: "nat list list \<Rightarrow> nat \<Rightarrow> nat" where
  "keys_before thr k = sum_list (map (key_total thr) [0..<k])"

text \<open>The budgets for key \<open>i\<close> of the threads \<open>tid, \<dots>, t - 1\<close>.\<close>

definition thread_cursor :: "nat list list \<Rightarrow> nat \<Rightarrow> nat \<Rightarrow> nat \<Rightarrow> nat" where
  "thread_cursor thr tid t i = sum_list (map (\<lambda>row. cell row i) (take (t - tid) (drop tid thr)))"

text \<open>
  The first index of the range of thread \<open>t\<close> for key \<open>k\<close>, for the budget rows \<open>thr\<close>
  and the base \<open>rptr_.back()\<close> that \<open>InitStorage\<close> starts from: the keys below \<open>k\<close>
  come first, then the threads below \<open>t\<close>.
\<close>

definition slot :: "nat list list \<Rightarrow> nat \<Rightarrow> nat \<Rightarrow> nat \<Rightarrow> nat" where
  "slot thr base t k = base + keys_before thr k + thread_cursor thr 0 t k"

text \<open>\<open>rptr_fill_value\<close>: \<open>rptr_.empty() ? 0 : rptr_.back()\<close>.\<close>

definition tail_value :: "nat list \<Rightarrow> nat" where
  "tail_value ptr = (if ptr = [] then 0 else last ptr)"

text \<open>
  The sum of all the budgets in the rows of the threads, and the sum of the \<open>nelem\<close>
  of a list of \<open>AddBudget\<close> calls.
\<close>

definition total_budget :: "nat list list \<Rightarrow> nat" where
  "total_budget thr = sum_list (map sum_list thr)"

definition calls_total :: "(nat \<times> int \<times> nat) list \<Rightarrow> nat" where
  "calls_total cs = sum_list (map (\<lambda>(key, tid, nelem). nelem) cs)"

text \<open>The numbers that a builder holds are \<open>SizeType\<close> values.\<close>

definition sized :: "'v builder \<Rightarrow> bool" where
  "sized b \<longleftrightarrow>
     (\<forall>x \<in> set (rptr b). x < 2 ^ 64) \<and>
     (\<forall>row \<in> set (thread_rptr b). \<forall>x \<in> set row. x < 2 ^ 64)"

text \<open>
  What the calls say: the budget thread \<open>tid\<close> declared for key \<open>k\<close> in the \<open>AddBudget\<close>
  calls \<open>cs\<close>, and the values thread \<open>tid\<close> pushed with key \<open>k\<close> in the \<open>Push\<close> calls
  \<open>ps\<close>, in the order of the calls.
\<close>

definition declared :: "(nat \<times> int \<times> nat) list \<Rightarrow> int \<Rightarrow> nat \<Rightarrow> nat" where
  "declared cs tid k =
     sum_list (map (\<lambda>(key, t, nelem). nelem) (filter (\<lambda>(key, t, nelem). key = k \<and> t = tid) cs))"

definition pushed_values :: "(nat \<times> 'v \<times> int) list \<Rightarrow> int \<Rightarrow> nat \<Rightarrow> 'v list" where
  "pushed_values ps tid k =
     map (\<lambda>(key, v, t). v) (filter (\<lambda>(key, v, t). key = k \<and> t = tid) ps)"







text \<open>A builder of two threads after \<open>InitBudget\<close> and some \<open>AddBudget\<close> calls.\<close>

definition two_rows :: "nat builder" where
  "two_rows = \<lparr>rptr = [], data = [], thread_rptr = [[0], [5, 0]]\<rparr>"

text \<open>
  A builder in append mode: the prior build left two values under key 0 and none under
  key 1, and the two threads of the next build have declared their budgets for the keys
  0, 1 and 2.
\<close>

definition appended :: "nat builder" where
  "appended = \<lparr>rptr = [0, 2, 2], data = [7, 8], thread_rptr = [[0, 1, 2], [0, 0, 1]]\<rparr>"

section \<open>The loops of \<open>InitStorage\<close> in closed form\<close>

declare grow_rptr.simps [simp del] assign_threads.simps [simp del] assign_keys.simps [simp del]
  assign_threads64.simps [simp del] assign_keys64.simps [simp del]

lemma length_resize [simp]: "length (resize n x xs) = n"
  by (simp add: resize_def)

lemma resize_grow: "length xs \<le> n \<Longrightarrow> resize n x xs = xs @ replicate (n - length xs) x"
  by (simp add: resize_def)

lemma grow_rptr_append:
  "\<exists>n. grow_rptr tid f thr ptr = ptr @ replicate n f"
proof (induction tid f thr ptr rule: grow_rptr.induct)
  case (1 tid f thr ptr)
  show ?case
  proof (cases "tid < length thr")
    case False
    then show ?thesis by (simp add: grow_rptr.simps[of tid])
  next
    case True
    let ?p = "if length ptr \<le> length (thr ! tid)
           then resize (length (thr ! tid) + 1) f ptr else ptr"
    from 1[OF True] obtain n where n: "grow_rptr (tid + 1) f thr ?p = ?p @ replicate n f" by blast
    have "\<exists>m. ?p = ptr @ replicate m f"
    proof (cases "length ptr \<le> length (thr ! tid)")
      case True
      then show ?thesis by (simp add: resize_grow)
    next
      case False
      then have "?p = ptr @ replicate 0 f" by simp
      then show ?thesis by blast
    qed
    then obtain m where m: "?p = ptr @ replicate m f" by blast
    have "grow_rptr tid f thr ptr = grow_rptr (tid + 1) f thr ?p"
      using True by (subst grow_rptr.simps) simp
    also have "\<dots> = ptr @ replicate (m + n) f"
      using n m by (simp add: replicate_add)
    finally show ?thesis by blast
  qed
qed

lemma grow_rptr_length_mono: "length ptr \<le> length (grow_rptr tid f thr ptr)"
  using grow_rptr_append[of tid f thr ptr] by auto

lemma grow_rptr_covers:
  "tid \<le> t \<Longrightarrow> t < length thr \<Longrightarrow> length (thr ! t) < length (grow_rptr tid f thr ptr)"
proof (induction tid f thr ptr rule: grow_rptr.induct)
  case (1 tid f thr ptr)
  let ?p = "if length ptr \<le> length (thr ! tid)
           then resize (length (thr ! tid) + 1) f ptr else ptr"
  have lt: "tid < length thr" using 1 by simp
  have eq: "grow_rptr tid f thr ptr = grow_rptr (tid + 1) f thr ?p"
    using lt by (subst grow_rptr.simps) simp
  show ?case
  proof (cases "t = tid")
    case True
    have "length (thr ! tid) < length ?p" by simp
    also have "\<dots> \<le> length (grow_rptr (tid + 1) f thr ?p)" by (rule grow_rptr_length_mono)
    finally show ?thesis using eq True by simp
  next
    case False
    then have "tid + 1 \<le> t" using 1 by simp
    from 1(1)[OF lt this 1(3)] show ?thesis using eq by simp
  qed
qed

lemma grow_rptr_nonempty: "thr \<noteq> [] \<or> ptr \<noteq> [] \<Longrightarrow> grow_rptr 0 f thr ptr \<noteq> []"
  using grow_rptr_covers[of 0 0 thr f ptr] grow_rptr_length_mono[of ptr 0 f thr]
  by (cases thr) auto

lemma assign_threads_result:
  "tid \<le> length thr \<Longrightarrow>
   \<exists>thr'. assign_threads tid i ptr cnt thr =
           (thr', cnt + sum_list (map (\<lambda>row. cell row i) (drop tid thr))) \<and>
         length thr' = length thr \<and>
         (\<forall>t<length thr. thr' ! t =
            (if tid \<le> t \<and> i < length (thr ! t)
             then (thr ! t)[i := cnt + thread_cursor thr tid t i + last ptr]
             else thr ! t))"
proof (induction tid i ptr cnt thr rule: assign_threads.induct)
  case (1 tid i ptr cnt thr)
  show ?case
  proof (cases "tid < length thr")
    case False
    then have "tid = length thr" using 1 by simp
    then show ?thesis
      by (subst assign_threads.simps) simp
  next
    case True
    note lt = True
    have dr: "drop tid thr = thr ! tid # drop (Suc tid) thr"
      using lt by (simp add: Cons_nth_drop_Suc)
    show ?thesis
    proof (cases "i < length (thr ! tid)")
      case True
      let ?thr = "thr[tid := (thr ! tid)[i := cnt + last ptr]]"
      have step: "assign_threads tid i ptr cnt thr =
                  assign_threads (tid + 1) i ptr (cnt + thr ! tid ! i) ?thr"
        using lt True by (subst assign_threads.simps) (simp add: Let_def)
      have d: "drop (tid + 1) ?thr = drop (Suc tid) thr" by simp
      have c: "cell (thr ! tid) i = thr ! tid ! i" using True by (simp add: cell_def)
      from 1(1)[OF lt refl True refl] lt obtain thr' where
        r: "assign_threads (tid + 1) i ptr (cnt + thr ! tid ! i) ?thr =
              (thr', cnt + thr ! tid ! i + sum_list (map (\<lambda>row. cell row i) (drop (tid + 1) ?thr)))"
        and l: "length thr' = length ?thr"
        and n: "\<forall>t<length ?thr. thr' ! t =
            (if tid + 1 \<le> t \<and> i < length (?thr ! t)
             then (?thr ! t)[i := cnt + thr ! tid ! i + thread_cursor ?thr (tid + 1) t i + last ptr]
             else ?thr ! t)"
        by auto
      have rows: "thr' ! t =
            (if tid \<le> t \<and> i < length (thr ! t)
             then (thr ! t)[i := cnt + thread_cursor thr tid t i + last ptr]
             else thr ! t)" if t: "t < length thr" for t
      proof -
        consider "t < tid" | "t = tid" | "tid < t" by linarith
        then show ?thesis
        proof cases
          case 1 then show ?thesis using t n by simp
        next
          case 2 then show ?thesis using t True n by (simp add: thread_cursor_def)
        next
          case 3
          then obtain m where m: "t - tid = Suc m" "t - (tid + 1) = m"
            by (cases "t - tid") auto
          show ?thesis using 3 t m c n by (simp add: d dr thread_cursor_def add.assoc)
        qed
      qed
      show ?thesis
        unfolding step r using l rows by (simp add: d dr c)
    next
      case False
      have step: "assign_threads tid i ptr cnt thr = assign_threads (tid + 1) i ptr cnt thr"
        using lt False by (subst assign_threads.simps) (simp add: Let_def)
      have c: "cell (thr ! tid) i = 0" using False by (simp add: cell_def)
      from 1(2)[OF lt refl False] lt obtain thr' where
        r: "assign_threads (tid + 1) i ptr cnt thr =
              (thr', cnt + sum_list (map (\<lambda>row. cell row i) (drop (tid + 1) thr)))"
        and l: "length thr' = length thr"
        and n: "\<forall>t<length thr. thr' ! t =
            (if tid + 1 \<le> t \<and> i < length (thr ! t)
             then (thr ! t)[i := cnt + thread_cursor thr (tid + 1) t i + last ptr]
             else thr ! t)"
        by auto
      have rows: "thr' ! t =
            (if tid \<le> t \<and> i < length (thr ! t)
             then (thr ! t)[i := cnt + thread_cursor thr tid t i + last ptr]
             else thr ! t)" if t: "t < length thr" for t
      proof -
        consider "t < tid" | "t = tid" | "tid < t" by linarith
        then show ?thesis
        proof cases
          case 1 then show ?thesis using t n by simp
        next
          case 2 then show ?thesis using t False n by simp
        next
          case 3
          then obtain m where m: "t - tid = Suc m" "t - (tid + 1) = m"
            by (cases "t - tid") auto
          show ?thesis using 3 t m c n by (simp add: dr thread_cursor_def)
        qed
      qed
      show ?thesis
        unfolding step r using l rows by (simp add: dr c)
    qed
  qed
qed

lemma assign_keys_result:
  "\<exists>ptr' thr'. assign_keys i cnt ptr thr = (ptr', thr') \<and>
      length ptr' = length ptr \<and> length thr' = length thr \<and>
      (\<forall>j<length ptr. ptr' ! j =
         (if i < j then ptr ! j + cnt + (\<Sum>k=i..<j. key_total thr k) else ptr ! j)) \<and>
      (\<forall>t<length thr. length (thr' ! t) = length (thr ! t) \<and>
         (\<forall>k<length (thr ! t). thr' ! t ! k =
            (if i \<le> k \<and> k + 1 < length ptr
             then cnt + (\<Sum>j=i..<k. key_total thr j) + thread_cursor thr 0 t k + last ptr
             else thr ! t ! k)))"
proof (induction i cnt ptr thr rule: assign_keys.induct)
  case (1 i cnt ptr thr)
  show ?case
  proof (cases "i + 1 < length ptr")
    case False
    then show ?thesis by (subst assign_keys.simps) simp
  next
    case True
    from assign_threads_result[of 0 thr i ptr cnt] obtain thr1 where
      at: "assign_threads 0 i ptr cnt thr = (thr1, cnt + key_total thr i)"
      and l1: "length thr1 = length thr"
      and n1: "\<forall>t<length thr. thr1 ! t =
            (if i < length (thr ! t)
             then (thr ! t)[i := cnt + thread_cursor thr 0 t i + last ptr]
             else thr ! t)"
      by (auto simp: key_total_def)
    let ?cnt = "cnt + key_total thr i"
    let ?ptr = "ptr[i + 1 := ptr ! (i + 1) + ?cnt]"
    have step: "assign_keys i cnt ptr thr = assign_keys (i + 1) ?cnt ?ptr thr1"
      using True at by (subst assign_keys.simps) simp
    have len1: "length (thr1 ! t) = length (thr ! t)" if "t < length thr" for t
      using n1 that by simp
    have cells: "map (\<lambda>row. cell row k) thr1 = map (\<lambda>row. cell row k) thr" if "k \<noteq> i" for k
      using l1 n1 that by (intro nth_equalityI) (auto simp: cell_def)
    have kt: "key_total thr1 k = key_total thr k" if "k \<noteq> i" for k
      using cells[OF that] by (simp add: key_total_def)
    have tc: "thread_cursor thr1 0 t k = thread_cursor thr 0 t k" if "k \<noteq> i" for k t
      using cells[OF that] by (simp add: thread_cursor_def take_map[symmetric])
    have lastp: "last ?ptr = last ptr" if "i + 2 < length ptr"
    proof -
      have ne: "ptr \<noteq> []" using that by auto
      have "i + 1 \<noteq> length ptr - 1" using that by linarith
      then show ?thesis by (simp only: last_list_update[OF ne] if_False)
    qed
    from 1[OF True at[symmetric]] obtain ptr' thr' where
      r: "assign_keys (i + 1) ?cnt ?ptr thr1 = (ptr', thr')"
      and lp: "length ptr' = length ?ptr" and lt: "length thr' = length thr1"
      and np: "\<forall>j<length ?ptr. ptr' ! j =
         (if i + 1 < j then ?ptr ! j + ?cnt + (\<Sum>k=i + 1..<j. key_total thr1 k) else ?ptr ! j)"
      and nt: "\<forall>t<length thr1. length (thr' ! t) = length (thr1 ! t) \<and>
         (\<forall>k<length (thr1 ! t). thr' ! t ! k =
            (if i + 1 \<le> k \<and> k + 1 < length ?ptr
             then ?cnt + (\<Sum>j=i + 1..<k. key_total thr1 j) + thread_cursor thr1 0 t k + last ?ptr
             else thr1 ! t ! k))"
      by blast
    have sums: "(\<Sum>k=i + 1..<j. key_total thr1 k) = (\<Sum>k=i + 1..<j. key_total thr k)" for j
      by (rule sum.cong) (auto simp: kt)
    have P: "ptr' ! j =
         (if i < j then ptr ! j + cnt + (\<Sum>k=i..<j. key_total thr k) else ptr ! j)"
      if j: "j < length ptr" for j
    proof -
      consider "j \<le> i" | "j = i + 1" | "i + 1 < j" by linarith
      then show ?thesis
      proof cases
        case 1 then show ?thesis using np j by simp
      next
        case 2 then show ?thesis using np j by simp
      next
        case 3
        then have "(\<Sum>k=i..<j. key_total thr k) = key_total thr i + (\<Sum>k=i + 1..<j. key_total thr k)"
          by (simp add: sum.atLeast_Suc_lessThan)
        then show ?thesis using np j 3 sums by simp
      qed
    qed
    have T: "thr' ! t ! k =
            (if i \<le> k \<and> k + 1 < length ptr
             then cnt + (\<Sum>j=i..<k. key_total thr j) + thread_cursor thr 0 t k + last ptr
             else thr ! t ! k)"
      if t: "t < length thr" and k: "k < length (thr ! t)" for t k
    proof -
      have eq: "thr' ! t ! k =
            (if i + 1 \<le> k \<and> k + 1 < length ?ptr
             then ?cnt + (\<Sum>j=i + 1..<k. key_total thr1 j) + thread_cursor thr1 0 t k + last ?ptr
             else thr1 ! t ! k)"
        using nt t k l1 len1 by simp
      consider "k < i" | "k = i" | "i < k" "k + 1 < length ptr" | "i < k" "\<not> k + 1 < length ptr"
        by linarith
      then show ?thesis
      proof cases
        case 1 then show ?thesis using eq n1 t k by simp
      next
        case 2 then show ?thesis using eq n1 t k True by simp
      next
        case 3
        then have "(\<Sum>j=i..<k. key_total thr j) = key_total thr i + (\<Sum>j=i + 1..<k. key_total thr j)"
          by (simp add: sum.atLeast_Suc_lessThan)
        moreover have "last ?ptr = last ptr" using 3 by (intro lastp) simp
        moreover have "thread_cursor thr1 0 t k = thread_cursor thr 0 t k" using 3 by (intro tc) simp
        ultimately show ?thesis using eq 3 sums by simp
      next
        case 4 then show ?thesis using eq n1 t k by simp
      qed
    qed
    show ?thesis
      unfolding step r using lp lt l1 P T nt len1 by simp
  qed
qed

lemma keys_before_sum: "keys_before thr k = (\<Sum>j=0..<k. key_total thr j)"
  by (simp add: keys_before_def interv_sum_list_conv_sum_set_nat)

lemma InitStorage_layout:
  assumes ne: "thread_rptr b \<noteq> [] \<or> rptr b \<noteq> []"
  shows "\<exists>b' n. InitStorage dv b = Inr b' \<and>
      length (rptr b') = length (rptr b) + n \<and>
      (\<forall>j<length (rptr b').
         rptr b' ! j = (rptr b @ replicate n (tail_value (rptr b))) ! j + keys_before (thread_rptr b) j) \<and>
      last (rptr b') = tail_value (rptr b) + keys_before (thread_rptr b) (length (rptr b') - 1) \<and>
      data b' = resize (last (rptr b')) dv (data b) \<and>
      length (thread_rptr b') = length (thread_rptr b) \<and>
      (\<forall>t<length (thread_rptr b).
         length (thread_rptr b ! t) < length (rptr b') \<and>
         length (thread_rptr b' ! t) = length (thread_rptr b ! t) \<and>
         (\<forall>k<length (thread_rptr b ! t).
            thread_rptr b' ! t ! k = slot (thread_rptr b) (tail_value (rptr b)) t k))"
proof -
  let ?f = "tail_value (rptr b)"
  let ?thr = "thread_rptr b"
  let ?ext = "grow_rptr 0 ?f ?thr (rptr b)"
  obtain n where ext: "?ext = rptr b @ replicate n ?f"
    using grow_rptr_append by blast
  have extne: "?ext \<noteq> []" using ne by (rule grow_rptr_nonempty)
  have lastext: "last ?ext = ?f"
    using extne unfolding ext by (cases n) (auto simp: tail_value_def)
  from assign_keys_result[of 0 0 ?ext ?thr] obtain ptr' thr' where
    ak: "assign_keys 0 0 ?ext ?thr = (ptr', thr')"
    and lp: "length ptr' = length ?ext" and lt: "length thr' = length ?thr"
    and np: "\<forall>j<length ?ext. ptr' ! j =
         (if 0 < j then ?ext ! j + 0 + (\<Sum>k=0..<j. key_total ?thr k) else ?ext ! j)"
    and nt: "\<forall>t<length ?thr. length (thr' ! t) = length (?thr ! t) \<and>
         (\<forall>k<length (?thr ! t). thr' ! t ! k =
            (if 0 \<le> k \<and> k + 1 < length ?ext
             then 0 + (\<Sum>j=0..<k. key_total ?thr j) + thread_cursor ?thr 0 t k + last ?ext
             else ?thr ! t ! k))"
    by blast
  have p'ne: "ptr' \<noteq> []" using lp extne by auto
  let ?b' = "\<lparr>rptr = ptr', data = resize (last ptr') dv (data b), thread_rptr = thr'\<rparr>"
  have run: "InitStorage dv b = Inr ?b'"
    using ak p'ne by (simp add: InitStorage_def tail_value_def Let_def)
  have P: "ptr' ! j = ?ext ! j + keys_before ?thr j" if "j < length ptr'" for j
    using np that lp by (cases j) (auto simp: keys_before_sum)
  have L: "last ptr' = ?f + keys_before ?thr (length ptr' - 1)"
  proof -
    have "last ptr' = ptr' ! (length ptr' - 1)" using p'ne by (simp add: last_conv_nth)
    also have "\<dots> = ?ext ! (length ptr' - 1) + keys_before ?thr (length ptr' - 1)"
      using p'ne by (intro P) simp
    also have "?ext ! (length ptr' - 1) = last ?ext"
      using extne lp by (simp add: last_conv_nth)
    finally show ?thesis using lastext by simp
  qed
  have C: "length (?thr ! t) < length ptr' \<and> length (thr' ! t) = length (?thr ! t) \<and>
         (\<forall>k<length (?thr ! t). thr' ! t ! k = slot ?thr ?f t k)" if t: "t < length ?thr" for t
  proof -
    have cov: "length (?thr ! t) < length ?ext"
      using t by (intro grow_rptr_covers) simp_all
    then show ?thesis using nt t lp lastext
      by (auto simp: slot_def keys_before_sum)
  qed
  have "length (rptr ?b') = length (rptr b) + n" using lp ext by simp
  with run P L C lt ext show ?thesis
    by (intro exI[of _ ?b'] exI[of _ n]) simp
qed

lemma declared_Nil [simp]: "declared [] tid k = 0"
  by (simp add: declared_def)

lemma declared_Cons [simp]:
  "declared ((key, t, nelem) # cs) tid k =
     (if key = k \<and> t = tid then nelem else 0) + declared cs tid k"
  by (simp add: declared_def)

lemma pushed_values_Nil [simp]: "pushed_values [] tid k = []"
  by (simp add: pushed_values_def)

lemma pushed_values_Cons [simp]:
  "pushed_values ((key, v, t) # ps) tid k =
     (if key = k \<and> t = tid then [v] else []) @ pushed_values ps tid k"
  by (simp add: pushed_values_def)

section \<open>The budget phase\<close>

lemma AddBudget_result:
  assumes "0 \<le> tid" "nat tid < length (thread_rptr b)"
  shows "\<exists>b'. AddBudget key tid nelem b = Inr b' \<and> rptr b' = rptr b \<and> data b' = data b \<and>
           length (thread_rptr b') = length (thread_rptr b) \<and>
           (\<forall>t<length (thread_rptr b).
              length (thread_rptr b' ! t) =
                (if t = nat tid then max (length (thread_rptr b ! t)) (key + 1)
                 else length (thread_rptr b ! t)) \<and>
              (\<forall>k. cell (thread_rptr b' ! t) k =
                 cell (thread_rptr b ! t) k + (if t = nat tid \<and> k = key then nelem else 0)))"
proof -
  define row where "row = thread_rptr b ! nat tid"
  define grown where "grown = (if length row < key + 1 then resize (key + 1) 0 row else row)"
  define row' where "row' = grown[key := grown ! key + nelem]"
  define b' where "b' = b\<lparr>thread_rptr := (thread_rptr b)[nat tid := row']\<rparr>"
  have run: "AddBudget key tid nelem b = Inr b'"
    using assms by (simp add: AddBudget_def Let_def b'_def row'_def grown_def row_def)
  have lg: "length grown = max (length row) (key + 1)" by (simp add: grown_def)
  have cg: "cell grown k = cell row k" for k
    by (auto simp: cell_def resize_def nth_append grown_def)
  have kl: "key < length grown" using lg by simp
  have lr: "length row' = max (length row) (key + 1)" using lg by (simp add: row'_def)
  have cu: "cell row' k = cell row k + (if k = key then nelem else 0)" for k
  proof (cases "k = key")
    case True
    have "cell row' key = cell grown key + nelem" using kl by (simp add: cell_def row'_def)
    then show ?thesis using True cg[of key] by simp
  next
    case False
    have "cell row' k = cell grown k" using False by (simp add: cell_def row'_def)
    then show ?thesis using False cg[of k] by simp
  qed
  have rows: "thread_rptr b' ! t = (if t = nat tid then row' else thread_rptr b ! t)"
    if "t < length (thread_rptr b)" for t
    using that by (simp add: b'_def nth_list_update)
  have "rptr b' = rptr b" "data b' = data b" "length (thread_rptr b') = length (thread_rptr b)"
    by (simp_all add: b'_def)
  moreover have "\<forall>t<length (thread_rptr b).
              length (thread_rptr b' ! t) =
                (if t = nat tid then max (length (thread_rptr b ! t)) (key + 1)
                 else length (thread_rptr b ! t)) \<and>
              (\<forall>k. cell (thread_rptr b' ! t) k =
                 cell (thread_rptr b ! t) k + (if t = nat tid \<and> k = key then nelem else 0))"
    using rows lr cu by (simp add: row_def)
  ultimately show ?thesis using run by blast
qed

lemma AddBudgets_result:
  assumes "\<forall>(key, tid, nelem) \<in> set cs. 0 \<le> tid \<and> nat tid < length (thread_rptr b)"
  shows "\<exists>b'. AddBudgets cs b = Inr b' \<and> rptr b' = rptr b \<and> data b' = data b \<and>
           length (thread_rptr b') = length (thread_rptr b) \<and>
           (\<forall>t<length (thread_rptr b).
              length (thread_rptr b ! t) \<le> length (thread_rptr b' ! t) \<and>
              (\<forall>k. cell (thread_rptr b' ! t) k =
                 cell (thread_rptr b ! t) k + declared cs (int t) k)) \<and>
           (\<forall>(key, tid, nelem) \<in> set cs. key < length (thread_rptr b' ! nat tid))"
  using assms
proof (induction cs arbitrary: b)
  case Nil
  then show ?case by simp
next
  case (Cons c cs)
  obtain key tid nelem where c: "c = (key, tid, nelem)" by (cases c)
  have tid: "0 \<le> tid" "nat tid < length (thread_rptr b)" using Cons.prems c by auto
  from AddBudget_result[OF tid, of key nelem] obtain b1 where
    s1: "AddBudget key tid nelem b = Inr b1" and r1: "rptr b1 = rptr b" and d1: "data b1 = data b"
    and l1: "length (thread_rptr b1) = length (thread_rptr b)"
    and n1: "\<forall>t<length (thread_rptr b).
              length (thread_rptr b1 ! t) =
                (if t = nat tid then max (length (thread_rptr b ! t)) (key + 1)
                 else length (thread_rptr b ! t)) \<and>
              (\<forall>k. cell (thread_rptr b1 ! t) k =
                 cell (thread_rptr b ! t) k + (if t = nat tid \<and> k = key then nelem else 0))"
    by blast
  have "\<forall>(key, tid, nelem) \<in> set cs. 0 \<le> tid \<and> nat tid < length (thread_rptr b1)"
    using Cons.prems l1 by auto
  from Cons.IH[OF this] obtain b' where
    s2: "AddBudgets cs b1 = Inr b'" and r2: "rptr b' = rptr b1" and d2: "data b' = data b1"
    and l2: "length (thread_rptr b') = length (thread_rptr b1)"
    and n2: "\<forall>t<length (thread_rptr b1).
              length (thread_rptr b1 ! t) \<le> length (thread_rptr b' ! t) \<and>
              (\<forall>k. cell (thread_rptr b' ! t) k =
                 cell (thread_rptr b1 ! t) k + declared cs (int t) k)"
    and k2: "\<forall>(key, tid, nelem) \<in> set cs. key < length (thread_rptr b' ! nat tid)"
    by blast
  have run: "AddBudgets (c # cs) b = Inr b'" using s1 s2 c by simp
  have rows: "length (thread_rptr b ! t) \<le> length (thread_rptr b' ! t) \<and>
              (\<forall>k. cell (thread_rptr b' ! t) k =
                 cell (thread_rptr b ! t) k + declared (c # cs) (int t) k)"
    if t: "t < length (thread_rptr b)" for t
  proof -
    have a: "length (thread_rptr b ! t) \<le> length (thread_rptr b1 ! t)" using n1 t by simp
    have b: "length (thread_rptr b1 ! t) \<le> length (thread_rptr b' ! t)" using n2 t l1 by simp
    have e: "(tid = int t) = (t = nat tid)" using tid(1) by auto
    have ab: "length (thread_rptr b ! t) \<le> length (thread_rptr b' ! t)"
      using a b by (rule order_trans)
    have "cell (thread_rptr b' ! t) k =
                 cell (thread_rptr b ! t) k + declared (c # cs) (int t) k" for k
    proof -
      have "cell (thread_rptr b' ! t) k = cell (thread_rptr b1 ! t) k + declared cs (int t) k"
        using n2 t l1 by simp
      also have "cell (thread_rptr b1 ! t) k =
                 cell (thread_rptr b ! t) k + (if t = nat tid \<and> k = key then nelem else 0)"
        using n1 t by simp
      finally show ?thesis using c e by auto
    qed
    then show ?thesis using ab by blast
  qed
  have "key < length (thread_rptr b1 ! nat tid)" using n1 tid by simp
  also have "\<dots> \<le> length (thread_rptr b' ! nat tid)" using n2 tid l1 by simp
  finally have "key < length (thread_rptr b' ! nat tid)" .
  then have keys: "\<forall>(key, tid, nelem) \<in> set (c # cs). key < length (thread_rptr b' ! nat tid)"
    using k2 c by simp
  show ?case using run r1 r2 d1 d2 l1 l2 rows keys by simp
qed

lemma InitBudget_result:
  "0 \<le> nthread \<Longrightarrow>
   InitBudget nkeys nthread b =
     Inr (b\<lparr>thread_rptr := replicate (nat nthread) (replicate nkeys 0)\<rparr>)"
proof -
  assume n: "0 \<le> nthread"
  have "map (\<lambda>row. fill_zero (resize nkeys 0 row)) (resize (nat nthread) [] (thread_rptr b)) =
        replicate (nat nthread) (replicate nkeys 0)"
    by (intro nth_equalityI) (simp_all add: fill_zero_def map_replicate_const)
  then show ?thesis using n by (simp add: InitBudget_def)
qed

section \<open>The ranges of the threads are disjoint\<close>

lemma thread_cursor_step:
  "t < length thr \<Longrightarrow> thread_cursor thr 0 (Suc t) k = thread_cursor thr 0 t k + cell (thr ! t) k"
  by (simp add: thread_cursor_def take_Suc_conv_app_nth)

lemma thread_cursor_mono:
  "t \<le> t' \<Longrightarrow> thread_cursor thr 0 t k \<le> thread_cursor thr 0 t' k"
proof (induction t' rule: nat_induct)
  case 0
  then show ?case by simp
next
  case (Suc n)
  show ?case
  proof (cases "t = Suc n")
    case True then show ?thesis by simp
  next
    case False
    then have le: "thread_cursor thr 0 t k \<le> thread_cursor thr 0 n k" using Suc by simp
    show ?thesis
    proof (cases "n < length thr")
      case True
      then show ?thesis using le by (simp add: thread_cursor_step)
    next
      case False
      then show ?thesis using le by (simp add: thread_cursor_def)
    qed
  qed
qed

lemma thread_cursor_all: "length thr \<le> t \<Longrightarrow> thread_cursor thr 0 t k = key_total thr k"
  by (simp add: thread_cursor_def key_total_def)

lemma thread_cursor_next:
  assumes "t < t'" "t < length thr"
  shows "thread_cursor thr 0 t k + cell (thr ! t) k \<le> thread_cursor thr 0 t' k"
proof -
  have "thread_cursor thr 0 t k + cell (thr ! t) k = thread_cursor thr 0 (Suc t) k"
    using assms(2) by (simp add: thread_cursor_step)
  also have "\<dots> \<le> thread_cursor thr 0 t' k"
    using assms(1) by (intro thread_cursor_mono) simp
  finally show ?thesis .
qed

lemma thread_cursor_total:
  assumes "t < length thr"
  shows "thread_cursor thr 0 t k + cell (thr ! t) k \<le> key_total thr k"
  using thread_cursor_next[OF _ assms, of "length thr" k] assms
  by (simp add: thread_cursor_all)

lemma keys_before_Suc: "keys_before thr (Suc k) = keys_before thr k + key_total thr k"
  by (simp add: keys_before_def)

lemma keys_before_mono: "k \<le> k' \<Longrightarrow> keys_before thr k \<le> keys_before thr k'"
  by (induction k' rule: nat_induct) (auto simp: keys_before_Suc le_Suc_eq)


lemma slot_next_thread:
  assumes "t < t'" "t < length thr"
  shows "slot thr base t k + cell (thr ! t) k \<le> slot thr base t' k"
  using thread_cursor_next[OF assms, of k] by (simp add: slot_def)

lemma slot_end_le:
  assumes "k < K" "t < length thr"
  shows "slot thr base t k + cell (thr ! t) k \<le> base + keys_before thr K"
proof -
  have "slot thr base t k + cell (thr ! t) k \<le> base + keys_before thr (Suc k)"
    using thread_cursor_total[OF assms(2), of k] by (simp add: slot_def keys_before_Suc)
  also have "\<dots> \<le> base + keys_before thr K"
    using assms(1) by (simp add: keys_before_mono)
  finally show ?thesis .
qed



section \<open>The fill phase\<close>




section \<open>The 64-bit functions and the unbounded ones\<close>

subsection \<open>\<open>InitStorage\<close>\<close>

lemma wrap_less: "x < 2 ^ 64 \<Longrightarrow> wrap x = x"
  by (simp add: wrap_def)

lemma wrap_add: "wrap (wrap x + wrap y) = wrap (x + y)"
  by (simp add: wrap_def mod_add_eq)

text \<open>The loops of the 64-bit \<open>InitStorage\<close> compute the numbers of the unbounded loops
  modulo \<open>2^64\<close>.\<close>

lemma assign_threads64_wrap:
  "ptr \<noteq> [] \<Longrightarrow>
   assign_threads64 tid i (map wrap ptr) (wrap cnt) (map (map wrap) thr) =
     (case assign_threads tid i ptr cnt thr of (thr', cnt') \<Rightarrow> (map (map wrap) thr', wrap cnt'))"
proof (induction tid i ptr cnt thr rule: assign_threads.induct)
  case (1 tid i ptr cnt thr)
  show ?case
  proof (cases "tid < length thr")
    case False
    then show ?thesis
      by (subst assign_threads64.simps, subst assign_threads.simps) simp
  next
    case True
    note lt = True
    show ?thesis
    proof (cases "i < length (thr ! tid)")
      case True
      let ?thr = "thr[tid := (thr ! tid)[i := cnt + last ptr]]"
      have s: "assign_threads tid i ptr cnt thr =
               assign_threads (tid + 1) i ptr (cnt + thr ! tid ! i) ?thr"
        using lt True by (subst assign_threads.simps) (simp add: Let_def)
      have l: "last (map wrap ptr) = wrap (last ptr)" using 1(3) by (simp add: last_map)
      have s64: "assign_threads64 tid i (map wrap ptr) (wrap cnt) (map (map wrap) thr) =
                 assign_threads64 (tid + 1) i (map wrap ptr) (wrap (cnt + thr ! tid ! i))
                   (map (map wrap) ?thr)"
        using lt True
        by (subst assign_threads64.simps) (simp add: Let_def l wrap_add map_update)
      show ?thesis
        unfolding s s64 by (rule 1(1)[OF lt refl True refl 1(3)])
    next
      case False
      have s: "assign_threads tid i ptr cnt thr = assign_threads (tid + 1) i ptr cnt thr"
        using lt False by (subst assign_threads.simps) (simp add: Let_def)
      have s64: "assign_threads64 tid i (map wrap ptr) (wrap cnt) (map (map wrap) thr) =
                 assign_threads64 (tid + 1) i (map wrap ptr) (wrap cnt) (map (map wrap) thr)"
        using lt False by (subst assign_threads64.simps) (simp add: Let_def)
      show ?thesis
        unfolding s s64 by (rule 1(2)[OF lt refl False 1(3)])
    qed
  qed
qed

lemma assign_keys64_wrap:
  "assign_keys64 i (wrap cnt) (map wrap ptr) (map (map wrap) thr) =
     (case assign_keys i cnt ptr thr of (ptr', thr') \<Rightarrow> (map wrap ptr', map (map wrap) thr'))"
proof (induction i cnt ptr thr rule: assign_keys.induct)
  case (1 i cnt ptr thr)
  show ?case
  proof (cases "i + 1 < length ptr")
    case False
    then show ?thesis
      by (subst assign_keys64.simps, subst assign_keys.simps) simp
  next
    case True
    then have ne: "ptr \<noteq> []" by auto
    obtain thr1 cnt1 where at: "assign_threads 0 i ptr cnt thr = (thr1, cnt1)"
      by (cases "assign_threads 0 i ptr cnt thr")
    have at64: "assign_threads64 0 i (map wrap ptr) (wrap cnt) (map (map wrap) thr) =
                (map (map wrap) thr1, wrap cnt1)"
      using assign_threads64_wrap[OF ne, of 0 i cnt thr] at by simp
    let ?ptr = "ptr[i + 1 := ptr ! (i + 1) + cnt1]"
    have s: "assign_keys i cnt ptr thr = assign_keys (i + 1) cnt1 ?ptr thr1"
      using True at by (subst assign_keys.simps) simp
    have s64: "assign_keys64 i (wrap cnt) (map wrap ptr) (map (map wrap) thr) =
               assign_keys64 (i + 1) (wrap cnt1) (map wrap ?ptr) (map (map wrap) thr1)"
      using True at64 by (subst assign_keys64.simps) (simp add: wrap_add map_update)
    show ?thesis
      unfolding s s64 by (rule 1[OF True at[symmetric]])
  qed
qed

lemma map_wrap_id: "\<forall>x \<in> set xs. x < 2 ^ 64 \<Longrightarrow> map wrap xs = xs"
  by (induction xs) (simp_all add: wrap_less)

lemma map_map_wrap_id: "\<forall>row \<in> set thr. \<forall>x \<in> set row. x < 2 ^ 64 \<Longrightarrow> map (map wrap) thr = thr"
  by (induction thr) (simp_all add: map_wrap_id)

lemma InitStorage64_wrap:
  assumes rp: "\<forall>x \<in> set (rptr b). x < 2 ^ 64"
    and rt: "\<forall>row \<in> set (thread_rptr b). \<forall>x \<in> set row. x < 2 ^ 64"
    and run: "InitStorage dv b = Inr b'"
  shows "InitStorage64 dv b =
           Inr \<lparr>rptr = map wrap (rptr b'), data = resize (wrap (last (rptr b'))) dv (data b),
                 thread_rptr = map (map wrap) (thread_rptr b')\<rparr>"
proof -
  let ?f = "if rptr b = [] then 0 else last (rptr b)"
  let ?thr = "thread_rptr b"
  let ?ext = "grow_rptr 0 ?f ?thr (rptr b)"
  obtain n where ext: "?ext = rptr b @ replicate n ?f"
    using grow_rptr_append by blast
  have "?f < 2 ^ 64" using rp by (cases "rptr b = []") simp_all
  then have "\<forall>x \<in> set ?ext. x < 2 ^ 64" using rp unfolding ext by auto
  then have e: "map wrap ?ext = ?ext" by (rule map_wrap_id)
  have t: "map (map wrap) ?thr = ?thr" using rt by (rule map_map_wrap_id)
  obtain ptr' thr' where ak: "assign_keys 0 0 ?ext ?thr = (ptr', thr')"
    by (cases "assign_keys 0 0 ?ext ?thr")
  have "assign_keys64 0 (wrap 0) (map wrap ?ext) (map (map wrap) ?thr) =
          (map wrap ptr', map (map wrap) thr')"
    using assign_keys64_wrap[of 0 0 ?ext ?thr] ak by simp
  then have ak64: "assign_keys64 0 0 ?ext ?thr = (map wrap ptr', map (map wrap) thr')"
    by (simp only: e t) (simp add: wrap_def)
  have ne: "ptr' \<noteq> []" and b': "b' = \<lparr>rptr = ptr', data = resize (last ptr') dv (data b), thread_rptr = thr'\<rparr>"
    using run ak by (auto simp: InitStorage_def Let_def split: if_splits)
  have "last (map wrap ptr') = wrap (last ptr')" using ne by (simp add: last_map)
  then show ?thesis
    using ak64 ne by (simp add: InitStorage64_def Let_def b')
qed

text \<open>The budgets of the keys below \<open>K\<close> are part of all the budgets.\<close>

lemma cells_le_sum: "sum_list (map (cell row) [0..<K]) \<le> sum_list row"
proof -
  have "map (cell row) [0..<K] = take K row @ replicate (K - length row) 0"
    by (rule nth_equalityI) (auto simp: cell_def nth_append)
  then have "sum_list (map (cell row) [0..<K]) = sum_list (take K row)" by simp
  also have "\<dots> \<le> sum_list (take K row) + sum_list (drop K row)" by simp
  also have "\<dots> = sum_list row" by (simp only: sum_list_append[symmetric] append_take_drop_id)
  finally show ?thesis .
qed

lemma keys_before_rows:
  "keys_before thr K = sum_list (map (\<lambda>row. sum_list (map (cell row) [0..<K])) thr)"
proof (induction thr)
  case Nil
  then show ?case by (simp add: keys_before_def key_total_def)
next
  case (Cons row thr)
  have "key_total (row # thr) = (\<lambda>k. cell row k + key_total thr k)"
    by (rule ext) (simp add: key_total_def)
  then have "keys_before (row # thr) K =
        sum_list (map (\<lambda>k. cell row k + key_total thr k) [0..<K])"
    by (simp add: keys_before_def)
  also have "\<dots> = sum_list (map (cell row) [0..<K]) + keys_before thr K"
    by (simp add: sum_list_addf keys_before_def)
  finally show ?case using Cons by simp
qed

lemma keys_before_le_total: "keys_before thr K \<le> total_budget thr"
  unfolding keys_before_rows total_budget_def
  by (rule sum_list_mono) (simp add: cells_le_sum)

lemma cell_le_total: "t < length thr \<Longrightarrow> cell (thr ! t) k \<le> total_budget thr"
proof -
  assume t: "t < length thr"
  have "cell (thr ! t) k \<le> sum_list (thr ! t)"
    by (simp add: cell_def member_le_sum_list)
  also have "\<dots> \<le> total_budget thr"
    unfolding total_budget_def using t by (intro member_le_sum_list) simp_all
  finally show ?thesis .
qed

lemma rows_below_total:
  assumes "total_budget thr < B"
  shows "\<forall>row \<in> set thr. \<forall>x \<in> set row. x < B"
proof (intro ballI)
  fix row x assume r: "row \<in> set thr" and x: "x \<in> set row"
  have "x \<le> sum_list row" using x by (rule member_le_sum_list) simp
  also have "\<dots> \<le> total_budget thr"
    unfolding total_budget_def using r by (intro member_le_sum_list) simp_all
  finally show "x < B" using assms by simp
qed

lemma assign_keys64_frame:
  "length (fst (assign_keys64 i cnt ptr thr)) = length ptr \<and>
   (\<forall>j\<le>i. fst (assign_keys64 i cnt ptr thr) ! j = ptr ! j)"
proof (induction i cnt ptr thr rule: assign_keys64.induct)
  case (1 i cnt ptr thr)
  show ?case
  proof (cases "i + 1 < length ptr")
    case False
    then show ?thesis by (subst assign_keys64.simps, subst (2) assign_keys64.simps) simp
  next
    case True
    obtain thr1 cnt1 where at: "assign_threads64 0 i ptr cnt thr = (thr1, cnt1)"
      by (cases "assign_threads64 0 i ptr cnt thr")
    let ?ptr = "ptr[i + 1 := wrap (ptr ! (i + 1) + cnt1)]"
    have s: "assign_keys64 i cnt ptr thr = assign_keys64 (i + 1) cnt1 ?ptr thr1"
      using True at by (subst assign_keys64.simps) simp
    from 1[OF True at[symmetric]]
    have l: "length (fst (assign_keys64 (i + 1) cnt1 ?ptr thr1)) = length ?ptr"
      and n: "\<forall>j\<le>i + 1. fst (assign_keys64 (i + 1) cnt1 ?ptr thr1) ! j = ?ptr ! j"
      by simp_all
    show ?thesis unfolding s using l n by simp
  qed
qed

text \<open>\<open>InitStorage\<close> returns, ends with \<open>rptr_.back() == data_.size()\<close>, and leaves
  the first offset as it was.\<close>

lemma InitStorage64_ends:
  assumes ne: "thread_rptr b \<noteq> [] \<or> rptr b \<noteq> []"
  shows "\<exists>b'. InitStorage64 dv b = Inr b' \<and> rptr b' \<noteq> [] \<and>
           last (rptr b') = length (data b') \<and>
           rptr b' ! 0 = (if rptr b = [] then 0 else rptr b ! 0)"
proof -
  let ?f = "if rptr b = [] then 0 else last (rptr b)"
  let ?ext = "grow_rptr 0 ?f (thread_rptr b) (rptr b)"
  obtain n where ext: "?ext = rptr b @ replicate n ?f"
    using grow_rptr_append by blast
  have extne: "?ext \<noteq> []" using ne by (rule grow_rptr_nonempty)
  obtain ptr' thr' where ak: "assign_keys64 0 0 ?ext (thread_rptr b) = (ptr', thr')"
    by (cases "assign_keys64 0 0 ?ext (thread_rptr b)")
  have l: "length ptr' = length ?ext" and h: "ptr' ! 0 = ?ext ! 0"
    using assign_keys64_frame[of 0 0 ?ext "thread_rptr b"] ak by simp_all
  have p'ne: "ptr' \<noteq> []" using l extne by auto
  let ?b' = "\<lparr>rptr = ptr', data = resize (last ptr') dv (data b), thread_rptr = thr'\<rparr>"
  have run: "InitStorage64 dv b = Inr ?b'"
    using ak p'ne by (simp add: InitStorage64_def Let_def)
  have "?ext ! 0 = (if rptr b = [] then 0 else rptr b ! 0)"
    using extne unfolding ext by (cases "rptr b") (auto simp: nth_append)
  then have "rptr ?b' ! 0 = (if rptr b = [] then 0 else rptr b ! 0)" using h by simp
  moreover have "last (rptr ?b') = length (data ?b')" by simp
  ultimately show ?thesis using run p'ne by (intro exI[of _ ?b']) simp
qed

lemma cells_sum_all:
  assumes "length row \<le> K"
  shows "sum_list (map (cell row) [0..<K]) = sum_list row"
proof -
  have "map (cell row) [0..<K] = row @ replicate (K - length row) 0"
    using assms by (intro nth_equalityI) (auto simp: cell_def nth_append)
  then show ?thesis by simp
qed

lemma keys_before_all:
  assumes "\<forall>row \<in> set thr. length row \<le> K"
  shows "keys_before thr K = total_budget thr"
proof -
  have "map (\<lambda>row. sum_list (map (cell row) [0..<K])) thr = map sum_list thr"
    using assms by (intro map_cong) (simp_all add: cells_sum_all)
  then show ?thesis by (simp only: keys_before_rows total_budget_def)
qed

text \<open>
  What the 64-bit \<open>InitStorage\<close> leaves, on a builder whose numbers are \<open>SizeType\<close>
  values: every offset, every cursor and the new tail is its unbounded value modulo
  \<open>2^64\<close>.
\<close>

lemma InitStorage64_result:
  assumes ne: "thread_rptr b \<noteq> [] \<or> rptr b \<noteq> []"
    and sz: "sized b"
  shows "\<exists>b' n. InitStorage64 dv b = Inr b' \<and>
      length (rptr b') = length (rptr b) + n \<and>
      (\<forall>j<length (rptr b').
         rptr b' ! j = wrap ((rptr b @ replicate n (tail_value (rptr b))) ! j + keys_before (thread_rptr b) j)) \<and>
      last (rptr b') = wrap (tail_value (rptr b) + total_budget (thread_rptr b)) \<and>
      data b' = resize (last (rptr b')) dv (data b) \<and>
      length (thread_rptr b') = length (thread_rptr b) \<and>
      (\<forall>t<length (thread_rptr b).
         length (thread_rptr b ! t) < length (rptr b') \<and>
         length (thread_rptr b' ! t) = length (thread_rptr b ! t) \<and>
         (\<forall>k<length (thread_rptr b ! t).
            thread_rptr b' ! t ! k = wrap (slot (thread_rptr b) (tail_value (rptr b)) t k)))"
proof -
  let ?thr = "thread_rptr b"
  let ?base = "tail_value (rptr b)"
  from InitStorage_layout[OF ne, of dv] obtain b0 n where
    run: "InitStorage dv b = Inr b0"
    and lr: "length (rptr b0) = length (rptr b) + n"
    and r: "\<forall>j<length (rptr b0). rptr b0 ! j = (rptr b @ replicate n ?base) ! j + keys_before ?thr j"
    and last0: "last (rptr b0) = ?base + keys_before ?thr (length (rptr b0) - 1)"
    and l: "length (thread_rptr b0) = length ?thr"
    and c: "\<forall>t<length ?thr. length (?thr ! t) < length (rptr b0) \<and>
               length (thread_rptr b0 ! t) = length (?thr ! t) \<and>
               (\<forall>k<length (?thr ! t). thread_rptr b0 ! t ! k = slot ?thr ?base t k)"
    by blast
  have rp: "\<forall>x \<in> set (rptr b). x < 2 ^ 64"
    and rt: "\<forall>row \<in> set ?thr. \<forall>x \<in> set row. x < 2 ^ 64"
    using sz by (simp_all add: sized_def)
  let ?b' = "\<lparr>rptr = map wrap (rptr b0), data = resize (wrap (last (rptr b0))) dv (data b),
               thread_rptr = map (map wrap) (thread_rptr b0)\<rparr>"
  have run64: "InitStorage64 dv b = Inr ?b'"
    using rp rt run by (rule InitStorage64_wrap)
  have ne0: "rptr b0 \<noteq> []"
  proof (cases "?thr = []")
    case True
    then show ?thesis using ne lr by auto
  next
    case False
    then have "0 < length ?thr" by simp
    then show ?thesis using c by fastforce
  qed
  have "\<forall>row \<in> set ?thr. length row \<le> length (rptr b0) - 1"
  proof
    fix row assume "row \<in> set ?thr"
    then obtain t where "t < length ?thr" "row = ?thr ! t" by (auto simp: in_set_conv_nth)
    then show "length row \<le> length (rptr b0) - 1" using c by fastforce
  qed
  then have all: "keys_before ?thr (length (rptr b0) - 1) = total_budget ?thr"
    by (rule keys_before_all)
  have A: "length (rptr ?b') = length (rptr b) + n" using lr by simp
  have B: "\<forall>j<length (rptr ?b').
         rptr ?b' ! j = wrap ((rptr b @ replicate n ?base) ! j + keys_before ?thr j)"
    using r by simp
  have L: "last (rptr ?b') = wrap (?base + total_budget ?thr)"
    using ne0 last0 all by (simp add: last_map)
  have D: "data ?b' = resize (last (rptr ?b')) dv (data b)"
    using ne0 by (simp add: last_map)
  have E: "length (thread_rptr ?b') = length ?thr" using l by simp
  have C: "\<forall>t<length ?thr. length (?thr ! t) < length (rptr ?b') \<and>
           length (thread_rptr ?b' ! t) = length (?thr ! t) \<and>
           (\<forall>k<length (?thr ! t). thread_rptr ?b' ! t ! k = wrap (slot ?thr ?base t k))"
    using c l by simp
  show ?thesis
    using run64 A B L D E C by blast
qed

text \<open>When every offset of the prior \<open>rptr_\<close> plus all the budgets is below \<open>2^64\<close>,
  the two \<open>InitStorage\<close> are one.\<close>

lemma InitStorage64_exact:
  assumes ne: "thread_rptr b \<noteq> [] \<or> rptr b \<noteq> []"
    and rp: "\<forall>x \<in> set (rptr b). x + total_budget (thread_rptr b) < 2 ^ 64"
    and tb: "total_budget (thread_rptr b) < 2 ^ 64"
  shows "InitStorage64 dv b = InitStorage dv b"
proof -
  let ?thr = "thread_rptr b"
  let ?base = "tail_value (rptr b)"
  have base: "?base + total_budget ?thr < 2 ^ 64"
    using rp tb by (cases "rptr b = []") (simp_all add: tail_value_def)
  have rp': "\<forall>x \<in> set (rptr b). x < 2 ^ 64" using rp by fastforce
  have rt: "\<forall>row \<in> set ?thr. \<forall>x \<in> set row. x < 2 ^ 64"
    using tb by (rule rows_below_total)
  from InitStorage_layout[OF ne, of dv] obtain b0 n where
    run: "InitStorage dv b = Inr b0"
    and lr: "length (rptr b0) = length (rptr b) + n"
    and r: "\<forall>j<length (rptr b0). rptr b0 ! j = (rptr b @ replicate n ?base) ! j + keys_before ?thr j"
    and last0: "last (rptr b0) = ?base + keys_before ?thr (length (rptr b0) - 1)"
    and d: "data b0 = resize (last (rptr b0)) dv (data b)"
    and l: "length (thread_rptr b0) = length ?thr"
    and c: "\<forall>t<length ?thr. length (?thr ! t) < length (rptr b0) \<and>
               length (thread_rptr b0 ! t) = length (?thr ! t) \<and>
               (\<forall>k<length (?thr ! t). thread_rptr b0 ! t ! k = slot ?thr ?base t k)"
    by blast
  let ?ext = "rptr b @ replicate n ?base"
  have small: "?base + keys_before ?thr K < 2 ^ 64" for K
    using keys_before_le_total[of ?thr K] base by simp
  have ext: "x + total_budget ?thr < 2 ^ 64" if "x \<in> set ?ext" for x
    using that rp base by auto
  have "\<forall>x \<in> set (rptr b0). x < 2 ^ 64"
  proof
    fix x assume "x \<in> set (rptr b0)"
    then obtain j where j: "j < length (rptr b0)" and x: "x = rptr b0 ! j"
      by (auto simp: in_set_conv_nth)
    have "?ext ! j \<in> set ?ext" using j lr by (intro nth_mem) simp
    from ext[OF this] keys_before_le_total[of ?thr j] show "x < 2 ^ 64"
      using r j x by simp
  qed
  then have P: "map wrap (rptr b0) = rptr b0" by (rule map_wrap_id)
  have "\<forall>row \<in> set (thread_rptr b0). \<forall>x \<in> set row. x < 2 ^ 64"
  proof (intro ballI)
    fix row x assume "row \<in> set (thread_rptr b0)" "x \<in> set row"
    then obtain t k where t: "t < length ?thr" and row: "row = thread_rptr b0 ! t"
      and k: "k < length row" and x: "x = row ! k"
      using l by (auto simp: in_set_conv_nth)
    have kk: "k < length (?thr ! t)" using c t k row by simp
    have "slot ?thr ?base t k + cell (?thr ! t) k \<le> ?base + keys_before ?thr (Suc k)"
      using slot_end_le[OF _ t, of k "Suc k" ?base] by simp
    then have "slot ?thr ?base t k < 2 ^ 64" using small[of "Suc k"] by simp
    then show "x < 2 ^ 64" using c t kk x row by simp
  qed
  then have T: "map (map wrap) (thread_rptr b0) = thread_rptr b0" by (rule map_map_wrap_id)
  have W: "wrap (last (rptr b0)) = last (rptr b0)"
    unfolding last0 using small by (rule wrap_less)
  have "InitStorage64 dv b =
          Inr \<lparr>rptr = map wrap (rptr b0), data = resize (wrap (last (rptr b0))) dv (data b),
                thread_rptr = map (map wrap) (thread_rptr b0)\<rparr>"
    using rp' rt run by (rule InitStorage64_wrap)
  also have "\<dots> = Inr b0"
    unfolding P T W using d by simp
  finally show ?thesis using run by simp
qed

subsection \<open>\<open>AddBudget\<close>\<close>

lemma wrap_add_left: "wrap (wrap x + y) = wrap (x + y)"
  by (simp add: wrap_def mod_add_left_eq)

lemma wrap_zero [simp]: "wrap 0 = 0"
  by (simp add: wrap_def)

lemma cell_map_wrap: "cell (map wrap row) k = wrap (cell row k)"
  by (simp add: cell_def)

lemma AddBudget64_result:
  assumes "0 \<le> tid" "nat tid < length (thread_rptr b)" "key + 1 < 2 ^ 64"
  shows "\<exists>b'. AddBudget64 key tid nelem b = Inr b' \<and> rptr b' = rptr b \<and> data b' = data b \<and>
           length (thread_rptr b') = length (thread_rptr b) \<and>
           (\<forall>t<length (thread_rptr b).
              length (thread_rptr b' ! t) =
                (if t = nat tid then max (length (thread_rptr b ! t)) (key + 1)
                 else length (thread_rptr b ! t)) \<and>
              (\<forall>k. cell (thread_rptr b' ! t) k =
                 (if t = nat tid \<and> k = key then wrap (cell (thread_rptr b ! t) k + nelem)
                  else cell (thread_rptr b ! t) k)))"
proof -
  define row where "row = thread_rptr b ! nat tid"
  define grown where "grown = (if length row < key + 1 then resize (key + 1) 0 row else row)"
  define row' where "row' = grown[key := wrap (grown ! key + nelem)]"
  define b' where "b' = b\<lparr>thread_rptr := (thread_rptr b)[nat tid := row']\<rparr>"
  have w: "wrap (key + 1) = key + 1" using assms(3) by (rule wrap_less)
  have lg: "length grown = max (length row) (key + 1)" by (simp add: grown_def)
  have kl: "key < length grown" using lg by simp
  have run: "AddBudget64 key tid nelem b = Inr b'"
    using assms(1,2) kl unfolding AddBudget64_def w Let_def b'_def row'_def grown_def row_def
    by (simp add: not_le)
  have cg: "cell grown k = cell row k" for k
    by (auto simp: cell_def resize_def nth_append grown_def)
  have lr: "length row' = max (length row) (key + 1)" using lg by (simp add: row'_def)
  have cu: "cell row' k = (if k = key then wrap (cell row k + nelem) else cell row k)" for k
  proof (cases "k = key")
    case True
    have "cell row' key = wrap (cell grown key + nelem)" using kl by (simp add: cell_def row'_def)
    then show ?thesis using True cg[of key] by simp
  next
    case False
    have "cell row' k = cell grown k" using False by (simp add: cell_def row'_def)
    then show ?thesis using False cg[of k] by simp
  qed
  have rows: "thread_rptr b' ! t = (if t = nat tid then row' else thread_rptr b ! t)"
    if "t < length (thread_rptr b)" for t
    using that by (simp add: b'_def nth_list_update)
  have "rptr b' = rptr b" "data b' = data b" "length (thread_rptr b') = length (thread_rptr b)"
    by (simp_all add: b'_def)
  moreover have "\<forall>t<length (thread_rptr b).
              length (thread_rptr b' ! t) =
                (if t = nat tid then max (length (thread_rptr b ! t)) (key + 1)
                 else length (thread_rptr b ! t)) \<and>
              (\<forall>k. cell (thread_rptr b' ! t) k =
                 (if t = nat tid \<and> k = key then wrap (cell (thread_rptr b ! t) k + nelem)
                  else cell (thread_rptr b ! t) k))"
    using rows lr cu by (simp add: row_def)
  ultimately show ?thesis using run by blast
qed

text \<open>The 64-bit \<open>AddBudget\<close> computes the counters of the unbounded one modulo \<open>2^64\<close>.\<close>

lemma AddBudget64_wrap:
  assumes key: "key + 1 < 2 ^ 64" and run: "AddBudget key tid nelem b = Inr b'"
  shows "AddBudget64 key tid nelem (b\<lparr>thread_rptr := map (map wrap) (thread_rptr b)\<rparr>) =
           Inr (b'\<lparr>thread_rptr := map (map wrap) (thread_rptr b')\<rparr>)"
proof -
  define row where "row = thread_rptr b ! nat tid"
  define grown where "grown = (if length row < key + 1 then resize (key + 1) 0 row else row)"
  define thr64 where "thr64 = map (map wrap) (thread_rptr b)"
  define row64 where "row64 = thr64 ! nat tid"
  define grown64 where
    "grown64 = (if length row64 < key + 1 then resize (key + 1) 0 row64 else row64)"
  have tid: "\<not> (tid < 0 \<or> length (thread_rptr b) \<le> nat tid)"
    and b': "b' = b\<lparr>thread_rptr := (thread_rptr b)[nat tid := grown[key := grown ! key + nelem]]\<rparr>"
    using run by (auto simp: AddBudget_def Let_def grown_def row_def split: if_splits)
  have w: "wrap (key + 1) = key + 1" using key by (rule wrap_less)
  have kl: "key < length grown" by (simp add: grown_def)
  have r: "row64 = map wrap row" using tid by (simp add: row64_def thr64_def row_def)
  have g: "grown64 = map wrap grown"
    by (simp add: grown64_def grown_def r resize_def take_map)
  have kl64: "key < length grown64" using kl g by simp
  have u: "grown64[key := wrap (grown64 ! key + nelem)] =
           map wrap (grown[key := grown ! key + nelem])"
    using kl by (simp add: g map_update wrap_add_left)
  have "AddBudget64 key tid nelem (b\<lparr>thread_rptr := thr64\<rparr>) =
        Inr (b\<lparr>thread_rptr := thr64[nat tid := grown64[key := wrap (grown64 ! key + nelem)]]\<rparr>)"
    using tid kl64 unfolding AddBudget64_def w Let_def grown64_def row64_def
    by (simp add: not_le thr64_def)
  then show ?thesis unfolding u by (simp add: b' map_update thr64_def)
qed

lemma AddBudgets64_wrap:
  assumes "\<forall>(key, tid, nelem) \<in> set cs. key + 1 < 2 ^ 64"
    and "AddBudgets cs b = Inr b'"
  shows "AddBudgets64 cs (b\<lparr>thread_rptr := map (map wrap) (thread_rptr b)\<rparr>) =
           Inr (b'\<lparr>thread_rptr := map (map wrap) (thread_rptr b')\<rparr>)"
  using assms
proof (induction cs arbitrary: b)
  case Nil
  then show ?case by simp
next
  case (Cons c cs)
  obtain key tid nelem where c: "c = (key, tid, nelem)" by (cases c)
  from Cons.prems(2) obtain b1 where s1: "AddBudget key tid nelem b = Inr b1"
    and s2: "AddBudgets cs b1 = Inr b'"
    by (auto simp: c split: sum.splits)
  have key: "key + 1 < 2 ^ 64" using Cons.prems(1) c by simp
  have keys: "\<forall>(key, tid, nelem) \<in> set cs. key + 1 < 2 ^ 64" using Cons.prems(1) by auto
  show ?case
    using AddBudget64_wrap[OF key s1] Cons.IH[OF keys s2] by (simp add: c)
qed

lemma sized_rows: "sized b \<Longrightarrow> b\<lparr>thread_rptr := map (map wrap) (thread_rptr b)\<rparr> = b"
  by (simp add: sized_def map_map_wrap_id)

text \<open>The two \<open>AddBudget\<close> are one when \<open>key + 1\<close> and the new counter are below \<open>2^64\<close>.\<close>

lemma AddBudget64_exact:
  assumes "0 \<le> tid" "nat tid < length (thread_rptr b)"
    and "key + 1 < 2 ^ 64"
    and "cell (thread_rptr b ! nat tid) key + nelem < 2 ^ 64"
  shows "AddBudget64 key tid nelem b = AddBudget key tid nelem b"
proof -
  let ?row = "thread_rptr b ! nat tid"
  let ?row' = "if length ?row < key + 1 then resize (key + 1) 0 ?row else ?row"
  have w: "wrap (key + 1) = key + 1" using assms(3) by (rule wrap_less)
  have k: "key < length ?row'" by simp
  have "?row' ! key = cell ?row key"
    by (simp add: cell_def resize_def nth_append)
  then have "wrap (?row' ! key + nelem) = ?row' ! key + nelem"
    using assms(4) by (intro wrap_less) simp
  then show ?thesis
    using assms(1,2) k unfolding AddBudget64_def AddBudget_def w Let_def
    by (simp add: not_le)
qed

lemma AddBudgets64_exact:
  assumes "\<forall>(key, tid, nelem) \<in> set cs.
             0 \<le> tid \<and> nat tid < length (thread_rptr b) \<and> key + 1 < 2 ^ 64"
    and "\<forall>t<length (thread_rptr b). \<forall>k.
           cell (thread_rptr b ! t) k + declared cs (int t) k < 2 ^ 64"
  shows "AddBudgets64 cs b = AddBudgets cs b"
  using assms
proof (induction cs arbitrary: b)
  case Nil
  then show ?case by simp
next
  case (Cons c cs)
  obtain key tid nelem where c: "c = (key, tid, nelem)" by (cases c)
  have tid: "0 \<le> tid" "nat tid < length (thread_rptr b)" and key: "key + 1 < 2 ^ 64"
    using Cons.prems(1) c by auto
  have e: "int (nat tid) = tid" using tid(1) by simp
  have "cell (thread_rptr b ! nat tid) key + declared (c # cs) (int (nat tid)) key < 2 ^ 64"
    using Cons.prems(2) tid(2) by blast
  then have small: "cell (thread_rptr b ! nat tid) key + nelem < 2 ^ 64"
    unfolding e c by simp
  have s64: "AddBudget64 key tid nelem b = AddBudget key tid nelem b"
    using tid key small by (rule AddBudget64_exact)
  from AddBudget_result[OF tid, of key nelem] obtain b1 where
    s1: "AddBudget key tid nelem b = Inr b1"
    and l1: "length (thread_rptr b1) = length (thread_rptr b)"
    and n1: "\<forall>t<length (thread_rptr b). \<forall>k. cell (thread_rptr b1 ! t) k =
                 cell (thread_rptr b ! t) k + (if t = nat tid \<and> k = key then nelem else 0)"
    by blast
  have ok1: "\<forall>(key, tid, nelem) \<in> set cs.
             0 \<le> tid \<and> nat tid < length (thread_rptr b1) \<and> key + 1 < 2 ^ 64"
    using Cons.prems(1) l1 by auto
  have b1: "cell (thread_rptr b1 ! t) k + declared cs (int t) k < 2 ^ 64"
    if t: "t < length (thread_rptr b1)" for t k
  proof -
    have t': "t < length (thread_rptr b)" using t l1 by simp
    have "(t = nat tid \<and> k = key) = (key = k \<and> tid = int t)" using tid(1) by auto
    then have "cell (thread_rptr b1 ! t) k + declared cs (int t) k =
          cell (thread_rptr b ! t) k + declared (c # cs) (int t) k"
      using n1 t' unfolding c by simp
    then show ?thesis using Cons.prems(2) t' by simp
  qed
  have "AddBudgets64 cs b1 = AddBudgets cs b1"
    using ok1 b1 by (intro Cons.IH) blast+
  then show ?case using s64 s1 unfolding c by simp
qed

lemma declared_le_calls:
  "declared cs tid k \<le> sum_list (map (\<lambda>(key, t, nelem). nelem) cs)"
  by (induction cs) (auto simp: declared_def)

subsection \<open>\<open>Push\<close> and the four phases\<close>

text \<open>The two \<open>Push\<close> are one when \<open>data_\<close> has fewer than \<open>2^64\<close> cells.\<close>

lemma Push64_exact:
  assumes "length (data b) < 2 ^ 64"
  shows "Push64 key val tid b = Push key val tid b"
proof -
  have "wrap (rp + 1) = rp + 1" if "rp < length (data b)" for rp
    using that assms by (intro wrap_less) simp
  then show ?thesis
    by (simp add: Push64_def Push_def Let_def not_le)
qed

lemma Push_length_data: "Push key val tid b = Inr b' \<Longrightarrow> length (data b') = length (data b)"
  by (auto simp: Push_def Let_def split: if_splits)

lemma Pushes64_exact:
  "length (data b) < 2 ^ 64 \<Longrightarrow> Pushes64 ps b = Pushes ps b"
proof (induction ps arbitrary: b)
  case Nil
  then show ?case by simp
next
  case (Cons p ps)
  obtain key val tid where p: "p = (key, val, tid)" by (cases p)
  have s: "Push64 key val tid b = Push key val tid b"
    using Cons.prems by (rule Push64_exact)
  show ?case
  proof (cases "Push key val tid b")
    case (Inl e)
    then show ?thesis using s by (simp add: p)
  next
    case (Inr b')
    then have "length (data b') < 2 ^ 64" using Cons.prems Push_length_data by fastforce
    then have "Pushes64 ps b' = Pushes ps b'" by (rule Cons.IH)
    then show ?thesis using s Inr by (simp add: p)
  qed
qed

lemma sum_list_resize_zero:
  fixes row :: "nat list"
  shows "length row \<le> n \<Longrightarrow> sum_list (resize n 0 row) = sum_list row"
  by (simp add: resize_def)

lemma AddBudget_total:
  assumes "AddBudget key tid nelem b = Inr b'"
  shows "total_budget (thread_rptr b') = total_budget (thread_rptr b) + nelem"
proof -
  let ?thr = "thread_rptr b"
  let ?t = "nat tid"
  let ?row = "?thr ! ?t"
  define row' where "row' = (if length ?row < key + 1 then resize (key + 1) 0 ?row else ?row)"
  have t: "?t < length ?thr" and b': "thread_rptr b' = ?thr[?t := row'[key := row' ! key + nelem]]"
    using assms by (auto simp: AddBudget_def Let_def row'_def split: if_splits)
  have k: "key < length row'" by (simp add: row'_def)
  have s0: "sum_list row' = sum_list ?row" by (simp add: row'_def sum_list_resize_zero)
  have "sum_list (row'[key := row' ! key + nelem]) = sum_list row' + (row' ! key + nelem) - row' ! key"
    using k by (rule sum_list_update)
  then have s1: "sum_list (row'[key := row' ! key + nelem]) = sum_list ?row + nelem"
    using s0 by simp
  have "map sum_list (thread_rptr b') = (map sum_list ?thr)[?t := sum_list ?row + nelem]"
    unfolding b' by (simp only: map_update s1)
  then have "total_budget (thread_rptr b') =
        sum_list ((map sum_list ?thr)[?t := sum_list ?row + nelem])"
    by (simp only: total_budget_def)
  also have "\<dots> = sum_list (map sum_list ?thr) + (sum_list ?row + nelem) - map sum_list ?thr ! ?t"
    using t by (intro sum_list_update) simp
  also have "\<dots> = total_budget ?thr + nelem"
    using t by (simp add: total_budget_def)
  finally show ?thesis .
qed

lemma AddBudgets_total:
  "AddBudgets cs b = Inr b' \<Longrightarrow>
   total_budget (thread_rptr b') = total_budget (thread_rptr b) + calls_total cs"
proof (induction cs arbitrary: b)
  case Nil
  then show ?case by (simp add: calls_total_def)
next
  case (Cons c cs)
  obtain key tid nelem where c: "c = (key, tid, nelem)" by (cases c)
  from Cons.prems obtain b1 where s1: "AddBudget key tid nelem b = Inr b1"
    and s2: "AddBudgets cs b1 = Inr b'"
    by (auto simp: c split: sum.splits)
  show ?case
    using AddBudget_total[OF s1] Cons.IH[OF s2] by (simp add: c calls_total_def)
qed

text \<open>
  A build whose budgets, added to any offset of the prior \<open>rptr_\<close>, stay below \<open>2^64\<close>
  and whose keys are below \<open>SIZE_MAX\<close>: the 64-bit functions compute what the
  unbounded ones compute, for every list of \<open>Push\<close> calls.
\<close>

lemma build64_exact:
  assumes nt: "0 \<le> nthread"
    and ne: "0 < nthread \<or> rptr b \<noteq> []"
    and cs_ok: "\<forall>(key, tid, nelem) \<in> set cs. 0 \<le> tid \<and> tid < nthread \<and> key + 1 < 2 ^ 64"
    and rp: "\<forall>x \<in> set (rptr b). x + calls_total cs < 2 ^ 64"
    and tb: "calls_total cs < 2 ^ 64"
  shows "build64 nkeys nthread cs dv ps b = build nkeys nthread cs dv ps b"
proof -
  let ?N = "nat nthread"
  let ?b1 = "b\<lparr>thread_rptr := replicate ?N (replicate nkeys 0)\<rparr>"
  have s1: "InitBudget nkeys nthread b = Inr ?b1" using nt by (rule InitBudget_result)
  have ok: "\<forall>(key, tid, nelem) \<in> set cs. 0 \<le> tid \<and> nat tid < length (thread_rptr ?b1)"
    using cs_ok by auto
  have ok64: "\<forall>(key, tid, nelem) \<in> set cs.
                0 \<le> tid \<and> nat tid < length (thread_rptr ?b1) \<and> key + 1 < 2 ^ 64"
    using cs_ok by auto
  have small: "\<forall>t<length (thread_rptr ?b1). \<forall>k.
                 cell (thread_rptr ?b1 ! t) k + declared cs (int t) k < 2 ^ 64"
  proof (intro allI impI)
    fix t k assume "t < length (thread_rptr ?b1)"
    then have "cell (thread_rptr ?b1 ! t) k = 0" by (simp add: cell_def)
    then show "cell (thread_rptr ?b1 ! t) k + declared cs (int t) k < 2 ^ 64"
      using declared_le_calls[of cs "int t" k] tb by (simp add: calls_total_def)
  qed
  have a64: "AddBudgets64 cs ?b1 = AddBudgets cs ?b1"
    using ok64 small by (rule AddBudgets64_exact)
  from AddBudgets_result[OF ok] obtain b2 where
    s2: "AddBudgets cs ?b1 = Inr b2" and r2: "rptr b2 = rptr b"
    and l2: "length (thread_rptr b2) = ?N"
    by auto
  have "total_budget (thread_rptr ?b1) = 0"
    by (simp add: total_budget_def sum_list_replicate)
  then have tot: "total_budget (thread_rptr b2) = calls_total cs"
    using AddBudgets_total[OF s2] by simp
  have ne2: "thread_rptr b2 \<noteq> [] \<or> rptr b2 \<noteq> []" using ne l2 r2 by auto
  have i64: "InitStorage64 dv b2 = InitStorage dv b2"
    using ne2 rp tb unfolding r2[symmetric] tot[symmetric] by (rule InitStorage64_exact)
  from InitStorage_layout[OF ne2, of dv] obtain b3 where
    s3: "InitStorage dv b2 = Inr b3"
    and last3: "last (rptr b3) = tail_value (rptr b2) + keys_before (thread_rptr b2) (length (rptr b3) - 1)"
    and d3: "data b3 = resize (last (rptr b3)) dv (data b2)"
    by blast
  have "tail_value (rptr b2) + total_budget (thread_rptr b2) < 2 ^ 64"
    using rp tb r2 tot by (cases "rptr b = []") (simp_all add: tail_value_def)
  then have "length (data b3) < 2 ^ 64"
    using d3 last3 keys_before_le_total[of "thread_rptr b2" "length (rptr b3) - 1"] by simp
  then have p64: "Pushes64 ps b3 = Pushes ps b3" by (rule Pushes64_exact)
  show ?thesis
    using s1 a64 s2 i64 s3 p64 by (simp add: build64_def build_def)
qed

lemma declared_count:
  "declared cs tid k =
     count (sum_list (map (\<lambda>(key, t, nelem). replicate_mset nelem (t, key)) cs)) (tid, k)"
  by (induction cs) auto

lemma calls_total_size:
  "calls_total cs = size (sum_list (map (\<lambda>(key, t, nelem). replicate_mset nelem (t, key)) cs))"
  by (induction cs) (auto simp: calls_total_def)

lemma pushed_count:
  "length (pushed_values ps tid k) = count (image_mset (\<lambda>(key, v, t). (t, key)) (mset ps)) (tid, k)"
  by (induction ps) (auto split: if_splits)

text \<open>With matched budgets and pushes, the budgets add up to the number of \<open>Push\<close> calls.\<close>

lemma matched_calls_total:
  assumes "\<forall>tid k. length (pushed_values ps tid k) = declared cs tid k"
  shows "calls_total cs = length ps"
proof -
  have "sum_list (map (\<lambda>(key, t, nelem). replicate_mset nelem (t, key)) cs) =
        image_mset (\<lambda>(key, v, t). (t, key)) (mset ps)"
  proof (rule multiset_eqI)
    fix x :: "int \<times> nat"
    obtain tid k where x: "x = (tid, k)" by (cases x)
    show "count (sum_list (map (\<lambda>(key, t, nelem). replicate_mset nelem (t, key)) cs)) x =
          count (image_mset (\<lambda>(key, v, t). (t, key)) (mset ps)) x"
      unfolding x using assms by (simp only: declared_count[symmetric] pushed_count[symmetric])
  qed
  then show ?thesis by (simp add: calls_total_size)
qed

text \<open>
  So a build with matched budgets and pushes, keys below \<open>SIZE_MAX\<close>, and fewer \<open>Push\<close>
  calls than would take an offset of the prior \<open>rptr_\<close> to \<open>2^64\<close>, is the same with
  the 64-bit functions and with the unbounded ones: what is proved of \<open>build\<close> for such
  a build holds of \<open>build64\<close>.
\<close>

lemma build64_matched:
  assumes nt: "0 \<le> nthread"
    and ne: "0 < nthread \<or> rptr b \<noteq> []"
    and cs_ok: "\<forall>(key, tid, nelem) \<in> set cs. 0 \<le> tid \<and> tid < nthread \<and> key + 1 < 2 ^ 64"
    and match: "\<forall>tid k. length (pushed_values ps tid k) = declared cs tid k"
    and rp: "\<forall>x \<in> set (rptr b). x + length ps < 2 ^ 64"
    and tb: "length ps < 2 ^ 64"
  shows "build64 nkeys nthread cs dv ps b = build nkeys nthread cs dv ps b"
  using nt ne cs_ok rp tb unfolding matched_calls_total[OF match, symmetric]
  by (rule build64_exact)

lemmas run64_simps = resize_def Let_def InitStorage64_def grow_rptr.simps
  assign_threads64.simps assign_keys64.simps wrap_def

section \<open>What \<open>InitStorage\<close> leaves in place\<close>

lemma nth_resize_old: "i < length xs \<Longrightarrow> i < n \<Longrightarrow> resize n x xs ! i = xs ! i"
  by (simp add: resize_def nth_append)

lemma take_resize_old: "length xs \<le> n \<Longrightarrow> take (length xs) (resize n x xs) = xs"
  by (simp add: resize_def)

text \<open>
  C10, as amended. \<open>InitStorage\<close> in append mode, on arrays with
  \<open>rptr_.back() == data_.size()\<close> whose numbers are \<open>SizeType\<close> values, returns; the
  new length of \<open>data_\<close> is the new \<open>rptr_.back()\<close>, which is the prior
  \<open>rptr_.back()\<close> plus the sum of all the budgets, modulo \<open>2^64\<close>. When that sum is
  below \<open>2^64\<close>, the new length is at least the old length, and every cell of \<open>data_\<close>
  below the old length keeps its value.
\<close>

theorem InitStorage_keeps_data:
  assumes "rptr b \<noteq> []" and "last (rptr b) = length (data b)" and "sized b"
  shows "\<exists>b'. InitStorage64 dv b = Inr b' \<and>
           length (data b') = last (rptr b') \<and>
           last (rptr b') = wrap (last (rptr b) + total_budget (thread_rptr b)) \<and>
           (last (rptr b) + total_budget (thread_rptr b) < 2 ^ 64 \<longrightarrow>
              length (data b) \<le> last (rptr b') \<and>
              take (length (data b)) (data b') = data b \<and>
              (\<forall>i<length (data b). data b' ! i = data b ! i))"
proof -
  have ne: "thread_rptr b \<noteq> [] \<or> rptr b \<noteq> []" using assms(1) by simp
  from InitStorage64_result[OF ne assms(3), of dv] obtain b' where
    run: "InitStorage64 dv b = Inr b'"
    and l: "last (rptr b') = wrap (tail_value (rptr b) + total_budget (thread_rptr b))"
    and d: "data b' = resize (last (rptr b')) dv (data b)"
    by blast
  have l': "last (rptr b') = wrap (last (rptr b) + total_budget (thread_rptr b))"
    using l assms(1) by (simp add: tail_value_def)
  have len: "length (data b') = last (rptr b')" unfolding d by simp
  have keep: "length (data b) \<le> last (rptr b') \<and>
              take (length (data b)) (data b') = data b \<and>
              (\<forall>i<length (data b). data b' ! i = data b ! i)"
    if small: "last (rptr b) + total_budget (thread_rptr b) < 2 ^ 64"
  proof -
    have "last (rptr b') = last (rptr b) + total_budget (thread_rptr b)"
      unfolding l' using small by (rule wrap_less)
    then have le: "length (data b) \<le> last (rptr b')" using assms(2) by simp
    have "take (length (data b)) (data b') = data b"
      unfolding d using le by (rule take_resize_old)
    moreover have "\<forall>i<length (data b). data b' ! i = data b ! i"
      unfolding d using le by (simp add: nth_resize_old)
    ultimately show ?thesis using le by blast
  qed
  show ?thesis using run len l' keep by blast
qed

theorem InitStorage_keeps_data_witness:
  "\<exists>b'. InitStorage64 (0::nat) \<lparr>rptr = [0, 1, 2], data = [7, 8], thread_rptr = [[0, 0, 1]]\<rparr> = Inr b' \<and>
        length (data b') = last (rptr b') \<and> last (rptr b') = 3 \<and>
        length [7::nat, 8] \<le> last (rptr b') \<and>
        take (length [7::nat, 8]) (data b') = [7, 8] \<and>
        (\<forall>i<length [7::nat, 8]. data b' ! i = [7, 8] ! i)"
  using InitStorage_keeps_data[of "\<lparr>rptr = [0, 1, 2], data = [7::nat, 8], thread_rptr = [[0, 0, 1]]\<rparr>" 0]
  by (simp add: total_budget_def sized_def wrap_def)

text \<open>
  C10 as it is stated fails when the sum wraps around: with \<open>rptr = [0, 5]\<close>, five
  values in \<open>data\<close> and one budget of \<open>2^64 - 1\<close>, the new \<open>rptr_.back()\<close> is
  \<open>5 + (2^64 - 1)\<close> modulo \<open>2^64\<close>, which is 4, and \<open>data_.resize(4)\<close> drops the last
  value.
\<close>

theorem InitStorage_keeps_data_counterexample:
  "last [0, 5::nat] = length [1, 2, 3, 4, 5::nat] \<and>
   InitStorage64 (0::nat)
     \<lparr>rptr = [0, 5], data = [1, 2, 3, 4, 5], thread_rptr = [[18446744073709551615]]\<rparr> =
     Inr \<lparr>rptr = [0, 4], data = [1, 2, 3, 4], thread_rptr = [[5]]\<rparr> \<and>
   \<not> length [1, 2, 3, 4, 5::nat] \<le> last [0, 4::nat]"
  by (simp add: run64_simps)

section \<open>The four phases together\<close>

lemma cell_replicate_zero [simp]: "cell (replicate n 0) k = 0"
  by (simp add: cell_def)



section \<open>Segments\<close>












section \<open>The sub-ranges of the threads\<close>

lemma thread_cover:
  assumes "m \<le> length thr" "q < thread_cursor thr 0 m k"
  shows "\<exists>t<m. thread_cursor thr 0 t k \<le> q \<and> q < thread_cursor thr 0 t k + cell (thr ! t) k"
  using assms
proof (induction m rule: nat_induct)
  case 0
  then show ?case by (simp add: thread_cursor_def)
next
  case (Suc m)
  then have m: "m < length thr" by simp
  show ?case
  proof (cases "q < thread_cursor thr 0 m k")
    case True
    with Suc m obtain t where "t < m" "thread_cursor thr 0 t k \<le> q"
      "q < thread_cursor thr 0 t k + cell (thr ! t) k" by auto
    then show ?thesis using less_Suc_eq by blast
  next
    case False
    then have "thread_cursor thr 0 m k \<le> q" "q < thread_cursor thr 0 m k + cell (thr ! m) k"
      using Suc.prems(2) m by (simp_all add: thread_cursor_step)
    then show ?thesis by blast
  qed
qed

lemma key_cover:
  assumes "base + keys_before thr k \<le> p" "p < base + keys_before thr (Suc k)"
  shows "\<exists>t<length thr. slot thr base t k \<le> p \<and> p < slot thr base t k + cell (thr ! t) k"
proof -
  let ?q = "p - (base + keys_before thr k)"
  have "?q < thread_cursor thr 0 (length thr) k"
    using assms by (simp add: thread_cursor_all keys_before_Suc)
  from thread_cover[OF order_refl this] obtain t where
    "t < length thr" "thread_cursor thr 0 t k \<le> ?q" "?q < thread_cursor thr 0 t k + cell (thr ! t) k"
    by blast
  then have "t < length thr \<and> slot thr base t k \<le> p \<and> p < slot thr base t k + cell (thr ! t) k"
    using assms(1) unfolding slot_def by linarith
  then show ?thesis by blast
qed

lemma all_cover:
  assumes "base \<le> p" "p < base + keys_before thr K"
  shows "\<exists>k<K. \<exists>t<length thr. slot thr base t k \<le> p \<and> p < slot thr base t k + cell (thr ! t) k"
  using assms(2)
proof (induction K rule: nat_induct)
  case 0
  then show ?case using assms(1) by (simp add: keys_before_def)
next
  case (Suc K)
  show ?case
  proof (cases "p < base + keys_before thr K")
    case True
    with Suc obtain k where "k < K"
      "\<exists>t<length thr. slot thr base t k \<le> p \<and> p < slot thr base t k + cell (thr ! t) k"
      by blast
    then show ?thesis using less_Suc_eq by blast
  next
    case False
    then have "base + keys_before thr K \<le> p" by simp
    from key_cover[OF this Suc.prems] show ?thesis by blast
  qed
qed

text \<open>
  C5, as amended. \<open>InitStorage\<close> on a builder whose numbers are \<open>SizeType\<close> values,
  when the tail of the prior \<open>rptr_\<close> plus the sum of all the budgets is below
  \<open>2^64\<close>. For every key \<open>k\<close> at whose place the prior build stored nothing, that is,
  the prior \<open>rptr[k]\<close> and \<open>rptr[k+1]\<close>, where the prior \<open>rptr_\<close> has them, are the
  prior \<open>rptr_.back()\<close> (every key of a fresh build; in append mode the new keys and
  the keys with nothing stored at or after them): the segment \<open>[rptr[k], rptr[k+1])\<close>
  lies in \<open>data_\<close>; each thread with a cell for \<open>k\<close> owns the range that starts at its
  cursor and has the length of its budget, inside the segment; the ranges of two
  threads lie one after the other in thread order; and every index of the segment is
  in the range of one thread.
\<close>

theorem InitStorage_slot_ranges:
  assumes "thread_rptr b \<noteq> [] \<or> rptr b \<noteq> []" and "sized b"
    and "tail_value (rptr b) + total_budget (thread_rptr b) < 2 ^ 64"
  shows "\<exists>b'. InitStorage64 dv b = Inr b' \<and>
     length (thread_rptr b') = length (thread_rptr b) \<and>
     (\<forall>t<length (thread_rptr b).
        length (thread_rptr b' ! t) = length (thread_rptr b ! t) \<and>
        length (thread_rptr b ! t) < length (rptr b')) \<and>
     (\<forall>k. k + 1 < length (rptr b') \<longrightarrow>
        (k < length (rptr b) \<longrightarrow> rptr b ! k = last (rptr b)) \<longrightarrow>
        (k + 1 < length (rptr b) \<longrightarrow> rptr b ! (k + 1) = last (rptr b)) \<longrightarrow>
        rptr b' ! (k + 1) \<le> length (data b') \<and>
        (\<forall>t<length (thread_rptr b). k < length (thread_rptr b ! t) \<longrightarrow>
           rptr b' ! k \<le> thread_rptr b' ! t ! k \<and>
           thread_rptr b' ! t ! k + thread_rptr b ! t ! k \<le> rptr b' ! (k + 1)) \<and>
        (\<forall>t t'. t < t' \<longrightarrow> t' < length (thread_rptr b) \<longrightarrow>
           k < length (thread_rptr b ! t) \<longrightarrow> k < length (thread_rptr b ! t') \<longrightarrow>
           thread_rptr b' ! t ! k + thread_rptr b ! t ! k \<le> thread_rptr b' ! t' ! k) \<and>
        (\<forall>p. rptr b' ! k \<le> p \<longrightarrow> p < rptr b' ! (k + 1) \<longrightarrow>
           (\<exists>t<length (thread_rptr b). k < length (thread_rptr b ! t) \<and>
              thread_rptr b' ! t ! k \<le> p \<and> p < thread_rptr b' ! t ! k + thread_rptr b ! t ! k)))"
proof -
  let ?thr = "thread_rptr b"
  let ?base = "tail_value (rptr b)"
  from InitStorage64_result[OF assms(1,2), of dv] obtain b' n where
    run: "InitStorage64 dv b = Inr b'"
    and lr: "length (rptr b') = length (rptr b) + n"
    and r: "\<forall>j<length (rptr b'). rptr b' ! j = wrap ((rptr b @ replicate n ?base) ! j + keys_before ?thr j)"
    and lst: "last (rptr b') = wrap (?base + total_budget ?thr)"
    and d: "data b' = resize (last (rptr b')) dv (data b)"
    and l: "length (thread_rptr b') = length ?thr"
    and c: "\<forall>t<length ?thr. length (?thr ! t) < length (rptr b') \<and>
               length (thread_rptr b' ! t) = length (?thr ! t) \<and>
               (\<forall>k<length (?thr ! t). thread_rptr b' ! t ! k = wrap (slot ?thr ?base t k))"
    by blast
  let ?ext = "rptr b @ replicate n ?base"
  have small: "?base + keys_before ?thr K < 2 ^ 64" for K
    using keys_before_le_total[of ?thr K] assms(3) by simp
  have ld: "length (data b') = ?base + total_budget ?thr"
    unfolding d using lst assms(3) by (simp add: wrap_less)
  have at_end: "?ext ! j = ?base"
    if "j < length (rptr b')" "j < length (rptr b) \<longrightarrow> rptr b ! j = last (rptr b)" for j
  proof (cases "j < length (rptr b)")
    case True
    then have "rptr b \<noteq> []" by auto
    then show ?thesis using True that(2) by (simp add: nth_append tail_value_def)
  next
    case False
    then show ?thesis using that(1) lr by (simp add: nth_append)
  qed
  have key: "rptr b' ! k = ?base + keys_before ?thr k \<and>
             rptr b' ! (k + 1) = ?base + keys_before ?thr (Suc k) \<and>
             (\<forall>t<length ?thr. k < length (?thr ! t) \<longrightarrow>
                thread_rptr b' ! t ! k = slot ?thr ?base t k \<and> cell (?thr ! t) k = ?thr ! t ! k)"
    if k: "k + 1 < length (rptr b')"
      and e0: "k < length (rptr b) \<longrightarrow> rptr b ! k = last (rptr b)"
      and e1: "k + 1 < length (rptr b) \<longrightarrow> rptr b ! (k + 1) = last (rptr b)" for k
  proof -
    have s1: "wrap (?base + keys_before ?thr (Suc k)) = ?base + keys_before ?thr (Suc k)"
      using small by (rule wrap_less)
    have s0: "wrap (?base + keys_before ?thr k) = ?base + keys_before ?thr k"
      using small by (rule wrap_less)
    have "?ext ! k = ?base" using k e0 by (intro at_end) simp_all
    moreover have "?ext ! (k + 1) = ?base" using k e1 by (intro at_end) simp_all
    ultimately have seg: "rptr b' ! k = ?base + keys_before ?thr k"
      "rptr b' ! (k + 1) = ?base + keys_before ?thr (Suc k)"
      using r k s0 s1 by simp_all
    have "thread_rptr b' ! t ! k = slot ?thr ?base t k \<and> cell (?thr ! t) k = ?thr ! t ! k"
      if t: "t < length ?thr" and kt: "k < length (?thr ! t)" for t
    proof -
      have "slot ?thr ?base t k + cell (?thr ! t) k \<le> ?base + keys_before ?thr (Suc k)"
        using slot_end_le[OF _ t, of k "Suc k" ?base] by simp
      then have "wrap (slot ?thr ?base t k) = slot ?thr ?base t k"
        using small[of "Suc k"] by (intro wrap_less) simp
      then show ?thesis using c t kt by (simp add: cell_def)
    qed
    then show ?thesis using seg by blast
  qed
  have inside: "rptr b' ! k \<le> thread_rptr b' ! t ! k \<and>
           thread_rptr b' ! t ! k + ?thr ! t ! k \<le> rptr b' ! (k + 1)"
    if k: "k + 1 < length (rptr b')"
      and e0: "k < length (rptr b) \<longrightarrow> rptr b ! k = last (rptr b)"
      and e1: "k + 1 < length (rptr b) \<longrightarrow> rptr b ! (k + 1) = last (rptr b)"
      and t: "t < length ?thr" and kt: "k < length (?thr ! t)" for k t
  proof -
    have "slot ?thr ?base t k + cell (?thr ! t) k \<le> ?base + keys_before ?thr (Suc k)"
      using slot_end_le[OF _ t, of k "Suc k" ?base] by simp
    moreover have "?base + keys_before ?thr k \<le> slot ?thr ?base t k" by (simp add: slot_def)
    ultimately show ?thesis using key[OF k e0 e1] t kt by simp
  qed
  have ordered: "thread_rptr b' ! t ! k + ?thr ! t ! k \<le> thread_rptr b' ! t' ! k"
    if k: "k + 1 < length (rptr b')"
      and e0: "k < length (rptr b) \<longrightarrow> rptr b ! k = last (rptr b)"
      and e1: "k + 1 < length (rptr b) \<longrightarrow> rptr b ! (k + 1) = last (rptr b)"
      and tt: "t < t'" "t' < length ?thr" "k < length (?thr ! t)" "k < length (?thr ! t')" for k t t'
  proof -
    have t: "t < length ?thr" using tt by simp
    from slot_next_thread[OF tt(1) t, of ?base k] show ?thesis
      using key[OF k e0 e1] t tt by simp
  qed
  have covered: "\<exists>t<length ?thr. k < length (?thr ! t) \<and>
              thread_rptr b' ! t ! k \<le> p \<and> p < thread_rptr b' ! t ! k + ?thr ! t ! k"
    if k: "k + 1 < length (rptr b')"
      and e0: "k < length (rptr b) \<longrightarrow> rptr b ! k = last (rptr b)"
      and e1: "k + 1 < length (rptr b) \<longrightarrow> rptr b ! (k + 1) = last (rptr b)"
      and p: "rptr b' ! k \<le> p" "p < rptr b' ! (k + 1)" for k p
  proof -
    have "?base + keys_before ?thr k \<le> p" "p < ?base + keys_before ?thr (Suc k)"
      using key[OF k e0 e1] p by simp_all
    from key_cover[OF this] obtain t where t: "t < length ?thr"
      and in_t: "slot ?thr ?base t k \<le> p" "p < slot ?thr ?base t k + cell (?thr ! t) k"
      by blast
    then have kt: "k < length (?thr ! t)" by (auto simp: cell_def split: if_splits)
    show ?thesis using t kt in_t key[OF k e0 e1] by auto
  qed
  have within: "rptr b' ! (k + 1) \<le> length (data b')"
    if k: "k + 1 < length (rptr b')"
      and e0: "k < length (rptr b) \<longrightarrow> rptr b ! k = last (rptr b)"
      and e1: "k + 1 < length (rptr b) \<longrightarrow> rptr b ! (k + 1) = last (rptr b)" for k
    using key[OF k e0 e1] keys_before_le_total[of ?thr "Suc k"] ld by simp
  have lens: "\<forall>t<length ?thr. length (thread_rptr b' ! t) = length (?thr ! t) \<and>
        length (?thr ! t) < length (rptr b')"
    using c by simp
  show ?thesis
    using run l lens within inside ordered covered
    by (intro exI[of _ b']) (simp only: simp_thms, blast)
qed

theorem InitStorage_slot_ranges_witness:
  "\<exists>b'. InitStorage64 (0::nat) appended = Inr b' \<and>
     length (thread_rptr b') = length (thread_rptr appended) \<and>
     (\<forall>t<length (thread_rptr appended).
        length (thread_rptr b' ! t) = length (thread_rptr appended ! t) \<and>
        length (thread_rptr appended ! t) < length (rptr b')) \<and>
     (\<forall>k. k + 1 < length (rptr b') \<longrightarrow>
        (k < length (rptr appended) \<longrightarrow> rptr appended ! k = last (rptr appended)) \<longrightarrow>
        (k + 1 < length (rptr appended) \<longrightarrow> rptr appended ! (k + 1) = last (rptr appended)) \<longrightarrow>
        rptr b' ! (k + 1) \<le> length (data b') \<and>
        (\<forall>t<length (thread_rptr appended). k < length (thread_rptr appended ! t) \<longrightarrow>
           rptr b' ! k \<le> thread_rptr b' ! t ! k \<and>
           thread_rptr b' ! t ! k + thread_rptr appended ! t ! k \<le> rptr b' ! (k + 1)) \<and>
        (\<forall>t t'. t < t' \<longrightarrow> t' < length (thread_rptr appended) \<longrightarrow>
           k < length (thread_rptr appended ! t) \<longrightarrow> k < length (thread_rptr appended ! t') \<longrightarrow>
           thread_rptr b' ! t ! k + thread_rptr appended ! t ! k \<le> thread_rptr b' ! t' ! k) \<and>
        (\<forall>p. rptr b' ! k \<le> p \<longrightarrow> p < rptr b' ! (k + 1) \<longrightarrow>
           (\<exists>t<length (thread_rptr appended). k < length (thread_rptr appended ! t) \<and>
              thread_rptr b' ! t ! k \<le> p \<and> p < thread_rptr b' ! t ! k + thread_rptr appended ! t ! k)))"
  by (rule InitStorage_slot_ranges)
    (simp_all add: appended_def sized_def tail_value_def total_budget_def)

text \<open>
  C5 as it is stated fails in append mode and when a sum wraps around. The first build
  left \<open>rptr = [0, 1, 2]\<close> and \<open>data = [7, 8]\<close>. A second build whose one thread declares
  one value for key 0 gets from \<open>InitStorage\<close> the cursor 2 for that key: its range
  \<open>[2, 3)\<close> is outside the segment \<open>[rptr[0], rptr[1]) = [0, 2)\<close> of key 0. A second
  build that declares one value for the new key 2 only, with budget 0 in the cells of
  the keys 0 and 1, leaves index 0, in the segment \<open>[0, 1)\<close> of key 0, in no thread's
  range. And in a fresh build with the budgets \<open>2^64 - 1\<close> for key 0 and 2 for key 1,
  the range of key 1 starts at the cursor \<open>2^64 - 1\<close> and has length 2, but
  \<open>rptr[2]\<close> is 1.
\<close>

theorem InitStorage_slot_ranges_counterexample:
  "InitStorage64 (0::nat) \<lparr>rptr = [0, 1, 2], data = [7, 8], thread_rptr = [[1]]\<rparr> =
     Inr \<lparr>rptr = [0, 2, 3], data = [7, 8, 0], thread_rptr = [[2]]\<rparr> \<and>
   \<not> ([[2]] ! 0 ! 0 + [[1]] ! 0 ! 0 \<le> [0, 2, 3::nat] ! 1) \<and>
   InitStorage64 (0::nat) \<lparr>rptr = [0, 1, 2], data = [7, 8], thread_rptr = [[0, 0, 1]]\<rparr> =
     Inr \<lparr>rptr = [0, 1, 2, 3], data = [7, 8, 0], thread_rptr = [[2, 2, 2]]\<rparr> \<and>
   [0, 1, 2, 3::nat] ! 0 \<le> 0 \<and> 0 < [0, 1, 2, 3::nat] ! 1 \<and>
   \<not> ([[2, 2, 2]] ! 0 ! 0 \<le> (0::nat)) \<and>
   InitStorage64 (0::nat) \<lparr>rptr = [], data = [], thread_rptr = [[18446744073709551615, 2]]\<rparr> =
     Inr \<lparr>rptr = [0, 18446744073709551615, 1], data = [0],
          thread_rptr = [[0, 18446744073709551615]]\<rparr> \<and>
   \<not> ([[0, 18446744073709551615]] ! 0 ! 1 + [[18446744073709551615, 2]] ! 0 ! 1
        \<le> [0, 18446744073709551615, 1::nat] ! 2)"
  by (simp add: run64_simps)

section \<open>The order of the threads in a segment\<close>





section \<open>Where the pushes write\<close>

lemma Push_writes_at_index:
  "Push key v tid b = Inr b' \<Longrightarrow>
   data b' = (data b)[Push_index key tid b := v] \<and> rptr b' = rptr b \<and>
   Push_index key tid b' = Push_index key tid b + 1"
  by (auto simp: Push_def Push_index_def Let_def split: if_splits)

lemma Push_defined_iff:
  "(\<exists>b'. Push key v tid b = Inr b') \<longleftrightarrow>
   0 \<le> tid \<and> nat tid < length (thread_rptr b) \<and> key < length (thread_rptr b ! nat tid) \<and>
   thread_rptr b ! nat tid ! key < length (data b)"
  by (auto simp: Push_def Let_def)






section \<open>The offsets after \<open>InitStorage\<close>\<close>

lemma sorted_le_last: "sorted xs \<Longrightarrow> x \<in> set xs \<Longrightarrow> x \<le> last xs"
  by (induction xs) (auto split: if_splits)

lemma sorted_extended:
  assumes "sorted xs"
  shows "sorted (xs @ replicate n (tail_value xs))"
proof (cases "xs = []")
  case True
  then show ?thesis by (simp add: sorted_replicate)
next
  case False
  then show ?thesis
    using assms sorted_le_last[OF assms]
    by (auto simp: sorted_append sorted_replicate tail_value_def)
qed

text \<open>
  C2, as amended. \<open>InitStorage\<close> returns when there is a thread or \<open>rptr_\<close> is not
  empty; the last element of the new \<open>rptr_\<close> is the length of \<open>data_\<close>, and its first
  element is 0 in a fresh build and is the first element of the prior \<open>rptr_\<close>,
  unchanged, in append mode. When the \<open>rptr_\<close> the call starts from is non-decreasing
  (the empty one of a fresh build, or the one a build left) and its tail (0 when it is
  empty) plus the sum of all the budgets is below \<open>2^64\<close>, the new \<open>rptr_\<close> is
  non-decreasing.
\<close>

theorem InitStorage_offsets:
  assumes "thread_rptr b \<noteq> [] \<or> rptr b \<noteq> []"
  shows "\<exists>b'. InitStorage64 dv b = Inr b' \<and>
           last (rptr b') = length (data b') \<and>
           rptr b' ! 0 = (if rptr b = [] then 0 else rptr b ! 0) \<and>
           (sorted (rptr b) \<and> tail_value (rptr b) + total_budget (thread_rptr b) < 2 ^ 64 \<longrightarrow>
              sorted (rptr b'))"
proof -
  let ?thr = "thread_rptr b"
  let ?base = "tail_value (rptr b)"
  from InitStorage64_ends[OF assms, of dv] obtain b' where
    run: "InitStorage64 dv b = Inr b'"
    and e: "last (rptr b') = length (data b')"
    and h: "rptr b' ! 0 = (if rptr b = [] then 0 else rptr b ! 0)"
    by blast
  have "sorted (rptr b')"
    if s: "sorted (rptr b)" and small: "?base + total_budget ?thr < 2 ^ 64"
  proof -
    have le_base: "x \<le> ?base" if "x \<in> set (rptr b)" for x
      using sorted_le_last[OF s that] that by (auto simp: tail_value_def)
    then have "\<forall>x \<in> set (rptr b). x < 2 ^ 64" using small by fastforce
    moreover have "\<forall>row \<in> set ?thr. \<forall>x \<in> set row. x < 2 ^ 64"
      using small by (intro rows_below_total) simp
    ultimately have sz: "sized b" by (simp add: sized_def)
    from InitStorage64_result[OF assms sz, of dv] run obtain n where
      lr: "length (rptr b') = length (rptr b) + n"
      and r: "\<forall>j<length (rptr b'). rptr b' ! j = wrap ((rptr b @ replicate n ?base) ! j + keys_before ?thr j)"
      by auto
    let ?ext = "rptr b @ replicate n ?base"
    have ext_le: "?ext ! j \<le> ?base" if "j < length ?ext" for j
    proof -
      have "?ext ! j \<in> set ?ext" using that by (rule nth_mem)
      then show ?thesis using le_base by auto
    qed
    have r': "rptr b' ! j = ?ext ! j + keys_before ?thr j" if j: "j < length (rptr b')" for j
    proof -
      have "?ext ! j + keys_before ?thr j \<le> ?base + total_budget ?thr"
        using ext_le[of j] j lr keys_before_le_total[of ?thr j] by simp
      then have "wrap (?ext ! j + keys_before ?thr j) = ?ext ! j + keys_before ?thr j"
        using small by (intro wrap_less) simp
      then show ?thesis using r j by simp
    qed
    have se: "sorted ?ext" using s by (rule sorted_extended)
    show ?thesis
      unfolding sorted_iff_nth_mono
    proof (intro allI impI)
      fix i j assume ij: "i \<le> j" "j < length (rptr b')"
      have "?ext ! i \<le> ?ext ! j" using se ij lr by (intro sorted_nth_mono) simp_all
      moreover have "keys_before ?thr i \<le> keys_before ?thr j" using ij by (intro keys_before_mono)
      ultimately show "rptr b' ! i \<le> rptr b' ! j" using r'[of i] r'[of j] ij by simp
    qed
  qed
  then show ?thesis using run e h by blast
qed

theorem InitStorage_offsets_witness:
  "\<exists>b'. InitStorage64 (0::nat) \<lparr>rptr = [0, 1, 2], data = [7, 8], thread_rptr = [[0, 0, 2], [0, 0, 0, 1]]\<rparr> = Inr b' \<and>
        last (rptr b') = length (data b') \<and>
        rptr b' ! 0 = (if [0, 1, 2::nat] = [] then 0 else [0, 1, 2] ! 0) \<and>
        sorted (rptr b')"
  using InitStorage_offsets[of "\<lparr>rptr = [0, 1, 2], data = [7::nat, 8], thread_rptr = [[0, 0, 2], [0, 0, 0, 1]]\<rparr>" 0]
  by (simp add: total_budget_def tail_value_def)

text \<open>
  C2 as it is stated fails in append mode: the first build ends with \<open>rptr = [0, 1, 2]\<close>,
  so \<open>rptr_.back()\<close> is 2; the second build, which adds one value under the new key 2,
  leaves \<open>rptr[0] = 0\<close>. It also fails when a sum wraps around: in a fresh build with
  the budgets \<open>2^64 - 1\<close> for key 0 and 2 for key 1, \<open>rptr\<close> ends as
  \<open>[0, 2^64 - 1, 1]\<close>.
\<close>

theorem InitStorage_offsets_counterexample:
  "InitStorage64 (0::nat) \<lparr>rptr = [0, 1, 2], data = [7, 8], thread_rptr = [[0, 0, 1]]\<rparr> =
     Inr \<lparr>rptr = [0, 1, 2, 3], data = [7, 8, 0], thread_rptr = [[2, 2, 2]]\<rparr> \<and>
   [0, 1, 2, 3::nat] ! 0 \<noteq> last [0, 1, 2] \<and>
   InitStorage64 (0::nat) \<lparr>rptr = [], data = [], thread_rptr = [[18446744073709551615, 2]]\<rparr> =
     Inr \<lparr>rptr = [0, 18446744073709551615, 1], data = [0],
          thread_rptr = [[0, 18446744073709551615]]\<rparr> \<and>
   \<not> sorted [0, 18446744073709551615, 1::nat]"
  by (simp add: run64_simps)

section \<open>Appending to a key of the prior build\<close>






section \<open>Budgets in any order\<close>

lemma declared_mset:
  "declared cs tid k =
     sum_mset (image_mset (\<lambda>(key, t, nelem). nelem)
       (filter_mset (\<lambda>(key, t, nelem). key = k \<and> t = tid) (mset cs)))"
  unfolding declared_def
  by (simp only: sum_mset_sum_list[symmetric] mset_map mset_filter)

lemma declared_permuted: "mset cs' = mset cs \<Longrightarrow> declared cs' tid k = declared cs tid k"
  by (simp add: declared_mset)

lemma Max_insert_max:
  fixes a :: nat
  assumes "finite A"
  shows "Max (insert (max a c) A) = Max (insert a (insert c A))"
proof (cases "A = {}")
  case True
  then show ?thesis by simp
next
  case False
  have "Max (insert (max a c) A) = max (max a c) (Max A)"
    using assms False by (rule Max_insert)
  moreover have "Max (insert a (insert c A)) = max a (max c (Max A))"
    using assms False by simp
  ultimately show ?thesis by (simp add: max.assoc)
qed

text \<open>The width of a row after the calls \<open>cs\<close>: the old width, or one more than the
  largest key the thread declared.\<close>

lemma AddBudgets_width:
  assumes "\<forall>(key, tid, nelem) \<in> set cs. 0 \<le> tid \<and> nat tid < length (thread_rptr b)"
    and "AddBudgets cs b = Inr b'" and "t < length (thread_rptr b)"
  shows "length (thread_rptr b' ! t) =
         Max (insert (length (thread_rptr b ! t))
                ((\<lambda>(key, tid, nelem). key + 1) ` {c \<in> set cs. fst (snd c) = int t}))"
  using assms
proof (induction cs arbitrary: b)
  case Nil
  then show ?case by simp
next
  case (Cons c cs)
  obtain key tid nelem where c: "c = (key, tid, nelem)" by (cases c)
  have tid: "0 \<le> tid" "nat tid < length (thread_rptr b)" using Cons.prems(1) c by auto
  from AddBudget_result[OF tid, of key nelem] obtain b1 where
    s1: "AddBudget key tid nelem b = Inr b1"
    and l1: "length (thread_rptr b1) = length (thread_rptr b)"
    and n1: "\<forall>t<length (thread_rptr b).
              length (thread_rptr b1 ! t) =
                (if t = nat tid then max (length (thread_rptr b ! t)) (key + 1)
                 else length (thread_rptr b ! t))"
    by blast
  have ok1: "\<forall>(key, tid, nelem) \<in> set cs. 0 \<le> tid \<and> nat tid < length (thread_rptr b1)"
    using Cons.prems(1) l1 by auto
  have run1: "AddBudgets cs b1 = Inr b'" using Cons.prems(2) s1 c by simp
  have t1: "t < length (thread_rptr b1)" using Cons.prems(3) l1 by simp
  let ?f = "\<lambda>(key, tid, nelem). key + (1::nat)"
  let ?A = "?f ` {c \<in> set cs. fst (snd c) = int t}"
  have fin: "finite ?A" by simp
  have ih: "length (thread_rptr b' ! t) = Max (insert (length (thread_rptr b1 ! t)) ?A)"
    using Cons.IH[OF ok1 run1 t1] .
  show ?case
  proof (cases "tid = int t")
    case True
    then have tt: "t = nat tid" by simp
    have "{c' \<in> set (c # cs). fst (snd c') = int t} =
          insert c {c' \<in> set cs. fst (snd c') = int t}"
      using True by (auto simp: c)
    then have set_eq: "?f ` {c' \<in> set (c # cs). fst (snd c') = int t} = insert (key + 1) ?A"
      by (simp add: c)
    have "length (thread_rptr b1 ! t) = max (length (thread_rptr b ! t)) (key + 1)"
      using n1 Cons.prems(3) tt by simp
    then have "length (thread_rptr b' ! t) =
               Max (insert (max (length (thread_rptr b ! t)) (key + 1)) ?A)"
      using ih by simp
    also have "\<dots> = Max (insert (length (thread_rptr b ! t)) (insert (key + 1) ?A))"
      using fin by (rule Max_insert_max)
    finally show ?thesis by (simp only: set_eq)
  next
    case False
    then have tt: "t \<noteq> nat tid" using tid(1) by auto
    have "{c' \<in> set (c # cs). fst (snd c') = int t} = {c' \<in> set cs. fst (snd c') = int t}"
      using False by (auto simp: c)
    then have set_eq: "?f ` {c' \<in> set (c # cs). fst (snd c') = int t} = ?A"
      by simp
    have "length (thread_rptr b1 ! t) = length (thread_rptr b ! t)"
      using n1 Cons.prems(3) tt by simp
    then show ?thesis using ih by (simp only: set_eq)
  qed
qed

lemma cells_eq_rows:
  assumes "length r1 = length r2" "\<forall>k. cell r1 k = cell r2 k"
  shows "r1 = r2"
proof (rule nth_equalityI)
  show "length r1 = length r2" by (rule assms(1))
next
  fix k assume "k < length r1"
  then show "r1 ! k = r2 ! k" using assms(2)[rule_format, of k] assms(1) by (simp add: cell_def)
qed

lemma AddBudgets_permuted:
  fixes b :: "'v builder"
  assumes ok: "\<forall>(key, tid, nelem) \<in> set cs. 0 \<le> tid \<and> nat tid < length (thread_rptr b)"
    and perm: "mset cs' = mset cs"
  shows "AddBudgets cs' b = AddBudgets cs b"
proof -
  have sets: "set cs' = set cs" using perm by (rule mset_eq_setD)
  have ok': "\<forall>(key, tid, nelem) \<in> set cs'. 0 \<le> tid \<and> nat tid < length (thread_rptr b)"
    using ok sets by simp
  from AddBudgets_result[OF ok] obtain b1 where
    s1: "AddBudgets cs b = Inr b1" and r1: "rptr b1 = rptr b" and d1: "data b1 = data b"
    and l1: "length (thread_rptr b1) = length (thread_rptr b)"
    and c1: "\<forall>t<length (thread_rptr b). \<forall>k. cell (thread_rptr b1 ! t) k =
                 cell (thread_rptr b ! t) k + declared cs (int t) k"
    by blast
  from AddBudgets_result[OF ok'] obtain b2 where
    s2: "AddBudgets cs' b = Inr b2" and r2: "rptr b2 = rptr b" and d2: "data b2 = data b"
    and l2: "length (thread_rptr b2) = length (thread_rptr b)"
    and c2: "\<forall>t<length (thread_rptr b). \<forall>k. cell (thread_rptr b2 ! t) k =
                 cell (thread_rptr b ! t) k + declared cs' (int t) k"
    by blast
  have rows: "thread_rptr b2 ! t = thread_rptr b1 ! t" if t: "t < length (thread_rptr b)" for t
  proof (rule cells_eq_rows)
    show "length (thread_rptr b2 ! t) = length (thread_rptr b1 ! t)"
      using AddBudgets_width[OF ok s1 t] AddBudgets_width[OF ok' s2 t] sets by simp
    show "\<forall>k. cell (thread_rptr b2 ! t) k = cell (thread_rptr b1 ! t) k"
      using c1 c2 t declared_permuted[OF perm] by simp
  qed
  have "thread_rptr b2 = thread_rptr b1"
    using l1 l2 rows by (intro nth_equalityI) simp_all
  then have "b2 = b1" using r1 r2 d1 d2 by (intro builder.equality) simp_all
  then show ?thesis using s1 s2 by simp
qed

text \<open>
  C3, as amended. A call \<open>AddBudget(key, threadid, nelem)\<close> with a thread id in range
  and \<open>key + 1\<close> below \<open>2^64\<close> returns; the row of the thread has then the length
  \<open>max(old length, key + 1)\<close>, its old cells keep their values and its new cells are 0,
  but for the cell \<open>key\<close>, which holds its old value (0 for a new cell) plus \<open>nelem\<close>
  modulo \<open>2^64\<close>, the sum itself when it is below \<open>2^64\<close>; nothing else changes. After
  any list of such calls on a builder whose numbers are \<open>SizeType\<close> values, the
  counter of each thread and key is its old value plus the sum of the \<open>nelem\<close> of the
  calls for that thread and key, modulo \<open>2^64\<close>, and the calls in any other order end
  in the same builder.
\<close>

theorem AddBudget_accumulates:
  assumes "0 \<le> threadid" and "nat threadid < length (thread_rptr b)" and "key + 1 < 2 ^ 64"
  shows "(\<exists>b'. AddBudget64 key threadid nelem b = Inr b' \<and> rptr b' = rptr b \<and> data b' = data b \<and>
            length (thread_rptr b') = length (thread_rptr b) \<and>
            (\<forall>t<length (thread_rptr b). t \<noteq> nat threadid \<longrightarrow>
               thread_rptr b' ! t = thread_rptr b ! t) \<and>
            length (thread_rptr b' ! nat threadid) =
              max (length (thread_rptr b ! nat threadid)) (key + 1) \<and>
            (\<forall>j<length (thread_rptr b' ! nat threadid). j \<noteq> key \<longrightarrow>
               thread_rptr b' ! nat threadid ! j =
                 (if j < length (thread_rptr b ! nat threadid)
                  then thread_rptr b ! nat threadid ! j else 0)) \<and>
            thread_rptr b' ! nat threadid ! key =
              wrap (cell (thread_rptr b ! nat threadid) key + nelem) \<and>
            (cell (thread_rptr b ! nat threadid) key + nelem < 2 ^ 64 \<longrightarrow>
               thread_rptr b' ! nat threadid ! key =
                 cell (thread_rptr b ! nat threadid) key + nelem)) \<and>
         (\<forall>cs. (\<forall>(k', tid, n') \<in> set cs.
                   0 \<le> tid \<and> nat tid < length (thread_rptr b) \<and> k' + 1 < 2 ^ 64) \<and>
                sized b \<longrightarrow>
            (\<exists>b'. AddBudgets64 cs b = Inr b' \<and>
               (\<forall>t<length (thread_rptr b). \<forall>k.
                  cell (thread_rptr b' ! t) k =
                    wrap (cell (thread_rptr b ! t) k + declared cs (int t) k) \<and>
                  (cell (thread_rptr b ! t) k + declared cs (int t) k < 2 ^ 64 \<longrightarrow>
                     cell (thread_rptr b' ! t) k =
                       cell (thread_rptr b ! t) k + declared cs (int t) k)) \<and>
               (\<forall>cs'. mset cs' = mset cs \<longrightarrow> AddBudgets64 cs' b = Inr b')))"
proof (intro conjI allI impI)
  from AddBudget64_result[OF assms, of nelem] obtain b' where
    run: "AddBudget64 key threadid nelem b = Inr b'" and r: "rptr b' = rptr b" and d: "data b' = data b"
    and l: "length (thread_rptr b') = length (thread_rptr b)"
    and n: "\<forall>t<length (thread_rptr b).
              length (thread_rptr b' ! t) =
                (if t = nat threadid then max (length (thread_rptr b ! t)) (key + 1)
                 else length (thread_rptr b ! t)) \<and>
              (\<forall>k. cell (thread_rptr b' ! t) k =
                 (if t = nat threadid \<and> k = key then wrap (cell (thread_rptr b ! t) k + nelem)
                  else cell (thread_rptr b ! t) k))"
    by blast
  have others: "thread_rptr b' ! t = thread_rptr b ! t"
    if "t < length (thread_rptr b)" "t \<noteq> nat threadid" for t
    using n that by (intro cells_eq_rows) simp_all
  have len: "length (thread_rptr b' ! nat threadid) =
              max (length (thread_rptr b ! nat threadid)) (key + 1)"
    using n assms(2) by simp
  have own: "thread_rptr b' ! nat threadid ! j =
                 (if j < length (thread_rptr b ! nat threadid)
                  then thread_rptr b ! nat threadid ! j else 0)"
    if j: "j < length (thread_rptr b' ! nat threadid)" "j \<noteq> key" for j
  proof -
    have "cell (thread_rptr b' ! nat threadid) j = cell (thread_rptr b ! nat threadid) j"
      using n assms(2) j(2) by simp
    then show ?thesis using j by (simp add: cell_def)
  qed
  have "cell (thread_rptr b' ! nat threadid) key =
        wrap (cell (thread_rptr b ! nat threadid) key + nelem)"
    using n assms(2) by simp
  moreover have "key < length (thread_rptr b' ! nat threadid)" using len by simp
  ultimately have at_key: "thread_rptr b' ! nat threadid ! key =
        wrap (cell (thread_rptr b ! nat threadid) key + nelem)"
    by (simp add: cell_def)
  have exact: "thread_rptr b' ! nat threadid ! key = cell (thread_rptr b ! nat threadid) key + nelem"
    if "cell (thread_rptr b ! nat threadid) key + nelem < 2 ^ 64"
    unfolding at_key using that by (rule wrap_less)
  show "\<exists>b'. AddBudget64 key threadid nelem b = Inr b' \<and> rptr b' = rptr b \<and> data b' = data b \<and>
            length (thread_rptr b') = length (thread_rptr b) \<and>
            (\<forall>t<length (thread_rptr b). t \<noteq> nat threadid \<longrightarrow>
               thread_rptr b' ! t = thread_rptr b ! t) \<and>
            length (thread_rptr b' ! nat threadid) =
              max (length (thread_rptr b ! nat threadid)) (key + 1) \<and>
            (\<forall>j<length (thread_rptr b' ! nat threadid). j \<noteq> key \<longrightarrow>
               thread_rptr b' ! nat threadid ! j =
                 (if j < length (thread_rptr b ! nat threadid)
                  then thread_rptr b ! nat threadid ! j else 0)) \<and>
            thread_rptr b' ! nat threadid ! key =
              wrap (cell (thread_rptr b ! nat threadid) key + nelem) \<and>
            (cell (thread_rptr b ! nat threadid) key + nelem < 2 ^ 64 \<longrightarrow>
               thread_rptr b' ! nat threadid ! key =
                 cell (thread_rptr b ! nat threadid) key + nelem)"
    using run r d l others len own at_key exact by blast
next
  fix cs :: "(nat \<times> int \<times> nat) list"
  assume H: "(\<forall>(k', tid, n') \<in> set cs.
                   0 \<le> tid \<and> nat tid < length (thread_rptr b) \<and> k' + 1 < 2 ^ 64) \<and>
                sized b"
  then have ok64: "\<forall>(k', tid, n') \<in> set cs.
                   0 \<le> tid \<and> nat tid < length (thread_rptr b) \<and> k' + 1 < 2 ^ 64"
    and sz: "sized b"
    by simp_all
  have ok: "\<forall>(k', tid, n') \<in> set cs. 0 \<le> tid \<and> nat tid < length (thread_rptr b)"
    and keys: "\<forall>(k', tid, n') \<in> set cs. k' + 1 < 2 ^ 64"
    using ok64 by auto
  from AddBudgets_result[OF ok] obtain b0 where
    run: "AddBudgets cs b = Inr b0"
    and l0: "length (thread_rptr b0) = length (thread_rptr b)"
    and c: "\<forall>t<length (thread_rptr b). \<forall>k. cell (thread_rptr b0 ! t) k =
                 cell (thread_rptr b ! t) k + declared cs (int t) k"
    by blast
  let ?b' = "b0\<lparr>thread_rptr := map (map wrap) (thread_rptr b0)\<rparr>"
  have run64: "AddBudgets64 cs b = Inr ?b'"
    using AddBudgets64_wrap[OF keys run] sized_rows[OF sz] by simp
  have cells: "cell (thread_rptr ?b' ! t) k =
                 wrap (cell (thread_rptr b ! t) k + declared cs (int t) k) \<and>
               (cell (thread_rptr b ! t) k + declared cs (int t) k < 2 ^ 64 \<longrightarrow>
                  cell (thread_rptr ?b' ! t) k =
                    cell (thread_rptr b ! t) k + declared cs (int t) k)"
    if t: "t < length (thread_rptr b)" for t k
  proof -
    have "cell (thread_rptr ?b' ! t) k = wrap (cell (thread_rptr b0 ! t) k)"
      using t l0 by (simp add: cell_map_wrap)
    then have "cell (thread_rptr ?b' ! t) k =
                 wrap (cell (thread_rptr b ! t) k + declared cs (int t) k)"
      using c t by simp
    then show ?thesis by (simp add: wrap_less)
  qed
  have perm: "AddBudgets64 cs' b = Inr ?b'" if perm: "mset cs' = mset cs" for cs'
  proof -
    have sets: "set cs' = set cs" using perm by (rule mset_eq_setD)
    have keys': "\<forall>(k', tid, n') \<in> set cs'. k' + 1 < 2 ^ 64" using keys sets by simp
    have "AddBudgets cs' b = Inr b0" using AddBudgets_permuted[OF ok perm] run by simp
    from AddBudgets64_wrap[OF keys' this] show ?thesis using sized_rows[OF sz] by simp
  qed
  show "\<exists>b'. AddBudgets64 cs b = Inr b' \<and>
               (\<forall>t<length (thread_rptr b). \<forall>k.
                  cell (thread_rptr b' ! t) k =
                    wrap (cell (thread_rptr b ! t) k + declared cs (int t) k) \<and>
                  (cell (thread_rptr b ! t) k + declared cs (int t) k < 2 ^ 64 \<longrightarrow>
                     cell (thread_rptr b' ! t) k =
                       cell (thread_rptr b ! t) k + declared cs (int t) k)) \<and>
               (\<forall>cs'. mset cs' = mset cs \<longrightarrow> AddBudgets64 cs' b = Inr b')"
    using run64 cells perm by blast
qed

theorem AddBudget_accumulates_witness:
  "(\<exists>b'. AddBudget64 3 1 2 two_rows = Inr b' \<and> rptr b' = rptr two_rows \<and> data b' = data two_rows \<and>
      length (thread_rptr b') = length (thread_rptr two_rows) \<and>
      (\<forall>t<length (thread_rptr two_rows). t \<noteq> nat 1 \<longrightarrow>
         thread_rptr b' ! t = thread_rptr two_rows ! t) \<and>
      length (thread_rptr b' ! nat 1) = max (length (thread_rptr two_rows ! nat 1)) (3 + 1) \<and>
      (\<forall>j<length (thread_rptr b' ! nat 1). j \<noteq> 3 \<longrightarrow>
         thread_rptr b' ! nat 1 ! j =
           (if j < length (thread_rptr two_rows ! nat 1)
            then thread_rptr two_rows ! nat 1 ! j else 0)) \<and>
      thread_rptr b' ! nat 1 ! 3 = wrap (cell (thread_rptr two_rows ! nat 1) 3 + 2) \<and>
      (cell (thread_rptr two_rows ! nat 1) 3 + 2 < 2 ^ 64 \<longrightarrow>
         thread_rptr b' ! nat 1 ! 3 = cell (thread_rptr two_rows ! nat 1) 3 + 2)) \<and>
   (\<exists>b'. AddBudgets64 [(3, 1, 2), (0, 0, 1), (3, 1, 4)] two_rows = Inr b' \<and>
      (\<forall>t<length (thread_rptr two_rows). \<forall>k.
         cell (thread_rptr b' ! t) k =
           wrap (cell (thread_rptr two_rows ! t) k +
                 declared [(3, 1, 2), (0, 0, 1), (3, 1, 4)] (int t) k) \<and>
         (cell (thread_rptr two_rows ! t) k +
            declared [(3, 1, 2), (0, 0, 1), (3, 1, 4)] (int t) k < 2 ^ 64 \<longrightarrow>
          cell (thread_rptr b' ! t) k =
            cell (thread_rptr two_rows ! t) k +
            declared [(3, 1, 2), (0, 0, 1), (3, 1, 4)] (int t) k)) \<and>
      (\<forall>cs'. mset cs' = mset [(3, 1, 2), (0, 0, 1), (3, 1, 4)] \<longrightarrow> AddBudgets64 cs' two_rows = Inr b'))"
proof -
  have h: "0 \<le> (1::int)" "nat 1 < length (thread_rptr two_rows)" "(3::nat) + 1 < 2 ^ 64"
    by (simp_all add: two_rows_def)
  have ok: "(\<forall>(k', tid, n') \<in> set [(3::nat, 1::int, 2::nat), (0, 0, 1), (3, 1, 4)].
               0 \<le> tid \<and> nat tid < length (thread_rptr two_rows) \<and> k' + 1 < 2 ^ 64) \<and>
            sized two_rows"
    by (simp add: two_rows_def sized_def)
  note T = AddBudget_accumulates[OF h, of 2]
  from T have A: "\<exists>b'. AddBudget64 3 1 2 two_rows = Inr b' \<and> rptr b' = rptr two_rows \<and> data b' = data two_rows \<and>
      length (thread_rptr b') = length (thread_rptr two_rows) \<and>
      (\<forall>t<length (thread_rptr two_rows). t \<noteq> nat 1 \<longrightarrow>
         thread_rptr b' ! t = thread_rptr two_rows ! t) \<and>
      length (thread_rptr b' ! nat 1) = max (length (thread_rptr two_rows ! nat 1)) (3 + 1) \<and>
      (\<forall>j<length (thread_rptr b' ! nat 1). j \<noteq> 3 \<longrightarrow>
         thread_rptr b' ! nat 1 ! j =
           (if j < length (thread_rptr two_rows ! nat 1)
            then thread_rptr two_rows ! nat 1 ! j else 0)) \<and>
      thread_rptr b' ! nat 1 ! 3 = wrap (cell (thread_rptr two_rows ! nat 1) 3 + 2) \<and>
      (cell (thread_rptr two_rows ! nat 1) 3 + 2 < 2 ^ 64 \<longrightarrow>
         thread_rptr b' ! nat 1 ! 3 = cell (thread_rptr two_rows ! nat 1) 3 + 2)"
    by (rule conjunct1)
  from T have B: "\<forall>cs. (\<forall>(k', tid, n') \<in> set cs.
                   0 \<le> tid \<and> nat tid < length (thread_rptr two_rows) \<and> k' + 1 < 2 ^ 64) \<and>
                sized two_rows \<longrightarrow>
            (\<exists>b'. AddBudgets64 cs two_rows = Inr b' \<and>
               (\<forall>t<length (thread_rptr two_rows). \<forall>k.
                  cell (thread_rptr b' ! t) k =
                    wrap (cell (thread_rptr two_rows ! t) k + declared cs (int t) k) \<and>
                  (cell (thread_rptr two_rows ! t) k + declared cs (int t) k < 2 ^ 64 \<longrightarrow>
                     cell (thread_rptr b' ! t) k =
                       cell (thread_rptr two_rows ! t) k + declared cs (int t) k)) \<and>
               (\<forall>cs'. mset cs' = mset cs \<longrightarrow> AddBudgets64 cs' two_rows = Inr b'))"
    by (rule conjunct2)
  from B[rule_format, OF ok] A show ?thesis by (intro conjI)
qed

text \<open>
  C3 as it is stated fails when a sum wraps around: after \<open>AddBudget(0, 0, 2^64 - 1)\<close>
  and \<open>AddBudget(0, 0, 2)\<close> the counter is 1. And \<open>AddBudget(2^64 - 1, 0, 1)\<close> does not
  grow the row: \<open>key + 1\<close> is 0, and the cell \<open>key\<close> it writes is out of range.
\<close>

theorem AddBudget_accumulates_counterexample:
  "AddBudgets64 [(0, 0, 18446744073709551615), (0, 0, 2)]
     \<lparr>rptr = [], data = ([]::nat list), thread_rptr = [[0]]\<rparr> =
     Inr \<lparr>rptr = [], data = [], thread_rptr = [[1]]\<rparr> \<and>
   (1::nat) \<noteq> 0 + 18446744073709551615 + 2 \<and>
   AddBudget64 18446744073709551615 0 1
     \<lparr>rptr = [], data = ([]::nat list), thread_rptr = [[0]]\<rparr> = Inl UndefinedBehaviour"
  by (simp add: AddBudget64_def Let_def wrap_def resize_def)

section \<open>Keys with no values\<close>




section \<open>The size of the numbers\<close>

text \<open>
  Every number that the unbounded \<open>InitStorage\<close> stores is at most the new
  \<open>rptr_.back()\<close>, the length of \<open>data_\<close>: the offsets, the cursors, and the cursors
  advanced by their whole budget, which is as far as matched pushes move them. So
  whenever that length is below \<open>2^64\<close> no sum of the source wraps around in a build
  with matched budgets and pushes.
\<close>

lemma InitStorage_values_bounded:
  assumes "thread_rptr b \<noteq> [] \<or> rptr b \<noteq> []" and "sorted (rptr b)"
  shows "\<exists>b'. InitStorage dv b = Inr b' \<and> length (data b') = last (rptr b') \<and>
           (\<forall>x \<in> set (rptr b'). x \<le> last (rptr b')) \<and>
           (\<forall>t<length (thread_rptr b). \<forall>k<length (thread_rptr b ! t).
              thread_rptr b ! t ! k \<le> last (rptr b') \<and>
              thread_rptr b' ! t ! k + thread_rptr b ! t ! k \<le> last (rptr b'))"
proof -
  let ?thr = "thread_rptr b"
  let ?base = "tail_value (rptr b)"
  from InitStorage_layout[OF assms(1), of dv] obtain b' n where
    run: "InitStorage dv b = Inr b'"
    and lr: "length (rptr b') = length (rptr b) + n"
    and r: "\<forall>j<length (rptr b'). rptr b' ! j = (rptr b @ replicate n ?base) ! j + keys_before ?thr j"
    and last': "last (rptr b') = ?base + keys_before ?thr (length (rptr b') - 1)"
    and d: "data b' = resize (last (rptr b')) dv (data b)"
    and c: "\<forall>t<length ?thr. length (?thr ! t) < length (rptr b') \<and>
               length (thread_rptr b' ! t) = length (?thr ! t) \<and>
               (\<forall>k<length (?thr ! t). thread_rptr b' ! t ! k = slot ?thr ?base t k)"
    by blast
  let ?ext = "rptr b @ replicate n ?base"
  have se: "sorted ?ext" using assms(2) by (rule sorted_extended)
  have offsets: "x \<le> last (rptr b')" if "x \<in> set (rptr b')" for x
  proof -
    from that obtain j where j: "j < length (rptr b')" and x: "x = rptr b' ! j"
      by (auto simp: in_set_conv_nth)
    have ne: "rptr b' \<noteq> []" using j by auto
    have "?ext ! j \<le> ?ext ! (length (rptr b') - 1)"
      using se j lr by (intro sorted_nth_mono) simp_all
    moreover have "keys_before ?thr j \<le> keys_before ?thr (length (rptr b') - 1)"
      using j by (intro keys_before_mono) simp
    moreover have "last (rptr b') = ?ext ! (length (rptr b') - 1) +
                     keys_before ?thr (length (rptr b') - 1)"
      using r ne by (simp add: last_conv_nth)
    ultimately show ?thesis using r j x by simp
  qed
  have cursors: "?thr ! t ! k \<le> last (rptr b') \<and>
                 thread_rptr b' ! t ! k + ?thr ! t ! k \<le> last (rptr b')"
    if t: "t < length ?thr" and k: "k < length (?thr ! t)" for t k
  proof -
    have "k < length (rptr b') - 1" using c t k by fastforce
    from slot_end_le[OF this t, of ?base]
    have "slot ?thr ?base t k + cell (?thr ! t) k \<le> last (rptr b')" using last' by simp
    then show ?thesis using c t k by (simp add: cell_def)
  qed
  have "length (data b') = last (rptr b')" unfolding d by simp
  then show ?thesis using run offsets cursors by blast
qed

end
